theory Spec2Isabelle
  imports Complex_Main "HOL-Library.AList"
begin

section \<open>Python values used by the assistant\<close>

text \<open>
  The embedding follows \<^verbatim>\<open>src/smart_home_assistant.py\<close>.  Strings are byte strings
  (UTF-8).  The library functions \<^verbatim>\<open>str.lower\<close>, \<^verbatim>\<open>str.strip\<close> and \<^verbatim>\<open>json.loads\<close> are
  not part of the program: they are parameters (\<open>str_lower\<close>, \<open>str_strip\<close>,
  \<open>json_loads\<close>) of the operations that call them, so every statement holds for the
  Unicode-aware functions of the library.  Rated power draws are whole watts in the
  configuration, so the arithmetic on \<^verbatim>\<open>power_usage\<close> is exact and is modelled on
  \<open>int\<close>.  Console output (\<^verbatim>\<open>print\<close>) is not part of the state.
\<close>

datatype py_error = KeyError | TypeError

datatype pyval =
    PNone
  | PBool bool
  | PInt int
  | PFloat real
  | PStr string
  | PList "pyval list"
  | PDict "(string \<times> pyval) list"

type_synonym pydict = "(string \<times> pyval) list"


subsection \<open>Strings\<close>

fun startswith :: "string \<Rightarrow> string \<Rightarrow> bool" where
  "startswith [] t = True"
| "startswith (k # ks) [] = False"
| "startswith (k # ks) (c # cs) = (k = c \<and> startswith ks cs)"

text \<open>\<^verbatim>\<open>kw in text\<close> on strings: \<open>kw\<close> occurs in \<open>text\<close> as a contiguous substring.\<close>

fun py_in :: "string \<Rightarrow> string \<Rightarrow> bool" where
  "py_in kw [] = (kw = [])"
| "py_in kw (c # cs) = (startswith kw (c # cs) \<or> py_in kw cs)"

text \<open>\<^verbatim>\<open>any(kw in text for kw in keywords)\<close>\<close>

definition any_in :: "string list \<Rightarrow> string \<Rightarrow> bool" where
  "any_in keywords t = list_ex (\<lambda>kw. py_in kw t) keywords"

text \<open>\<^verbatim>\<open>s.replace('_', ' ')\<close>\<close>

definition replace_underscore :: "string \<Rightarrow> string" where
  "replace_underscore s = map (\<lambda>c. if c = CHR ''_'' then CHR '' '' else c) s"

text \<open>\<^verbatim>\<open>', '.join(xs)\<close>\<close>

fun join_comma :: "string list \<Rightarrow> string" where
  "join_comma [] = []"
| "join_comma [x] = x"
| "join_comma (x # y # ys) = x @ '', '' @ join_comma (y # ys)"

text \<open>
  What \<^verbatim>\<open>str.lower\<close> and \<^verbatim>\<open>str.strip\<close> do on ASCII text: the letters \<^verbatim>\<open>A\<close> to \<^verbatim>\<open>Z\<close> are
  lowered, and tab, LF, VT, FF, CR, FS, GS, RS, US and space are stripped from both ends.
  These two functions stand for the library functions in evaluations on ASCII texts only;
  no general statement is about them.
\<close>

definition ascii_lower_char :: "char \<Rightarrow> char" where
  "ascii_lower_char c =
     (let n = (of_char c :: nat) in if 65 \<le> n \<and> n \<le> 90 then char_of (n + 32) else c)"

definition ascii_lower :: "string \<Rightarrow> string" where
  "ascii_lower s = map ascii_lower_char s"



text \<open>Decimal rendering, for \<^verbatim>\<open>{x:.0f}\<close> and \<^verbatim>\<open>{x:+.0f}\<close> on whole numbers.\<close>

fun digits :: "nat \<Rightarrow> string" where
  "digits n =
     (if n < 10 then [''0123456789'' ! n]
      else digits (n div 10) @ [''0123456789'' ! (n mod 10)])"

declare digits.simps [simp del]

definition fmt_0f :: "int \<Rightarrow> string" where
  "fmt_0f x = (if x < 0 then ''-'' @ digits (nat (- x)) else digits (nat x))"

definition fmt_plus_0f :: "int \<Rightarrow> string" where
  "fmt_plus_0f x = (if x < 0 then ''-'' @ digits (nat (- x)) else ''+'' @ digits (nat x))"

subsection \<open>Dictionaries, default dictionaries and bounded deques\<close>

text \<open>
  A \<^verbatim>\<open>dict\<close> is an association list in insertion order with one entry per key.
  \<^verbatim>\<open>d[k] = v\<close> is \<^const>\<open>AList.update\<close> (overwrite in place, else append),
  \<^verbatim>\<open>d[k]\<close> and \<^verbatim>\<open>k in d\<close> go through \<^const>\<open>map_of\<close>, and \<^verbatim>\<open>d.copy()\<close> is
  the same value.
\<close>

definition dict_contains :: "('k \<times> 'v) list \<Rightarrow> 'k \<Rightarrow> bool" where
  "dict_contains d k = (map_of d k \<noteq> None)"

text \<open>
  \<^verbatim>\<open>dd[k]\<close> on a \<^verbatim>\<open>defaultdict(list)\<close>: a missing key is inserted with an empty list,
  so the read returns the dictionary as well.
\<close>

definition dd_getitem :: "('k \<times> 'v list) list \<Rightarrow> 'k \<Rightarrow> 'v list \<times> ('k \<times> 'v list) list" where
  "dd_getitem dd k =
     (case map_of dd k of Some v \<Rightarrow> (v, dd) | None \<Rightarrow> ([], dd @ [(k, [])]))"

text \<open>\<^verbatim>\<open>dd[k].append(v)\<close>\<close>

definition dd_append :: "('k \<times> 'v list) list \<Rightarrow> 'k \<Rightarrow> 'v \<Rightarrow> ('k \<times> 'v list) list" where
  "dd_append dd k v =
     (case dd_getitem dd k of (l, dd') \<Rightarrow> AList.update k (l @ [v]) dd')"


section \<open>Data model\<close>

datatype DeviceType = LIGHT | FAN | HEATER | AC | DOOR_LOCK | CURTAIN | OUTLET | ALARM | SENSOR

record Device =
  name :: string
  pin :: int
  device_type :: DeviceType
  state :: bool
  aliases :: "string list"
  room :: string
  power_consumption :: int
  schedule :: "(string \<times> string) list"
  last_changed :: nat

record Scene =
  scene_devices :: "(string \<times> bool) list"
  description :: string

record Context =
  temperature :: int
  humidity :: int
  outdoor_temp :: int
  time_of_day :: string
  day_of_week :: string
  season :: string
  occupancy :: "(string \<times> bool) list"
  power_usage :: int
  security_armed :: bool
  sleep_mode :: bool
  vacation_mode :: bool
  last_motion :: nat

record Thresholds =
  temp_comfort_min :: int
  temp_comfort_max :: int
  humidity_comfort_min :: int
  humidity_comfort_max :: int
  power_limit :: int

record PerformanceStats =
  command_latencies :: "real list"
  inference_times :: "real list"
  llm_token_counts :: "nat list"
  llm_eval_durations :: "nat list"
  cache_hits :: nat
  cache_misses :: nat
  total_commands :: nat
  energy_saved :: real
  automation_triggers :: nat
  recent_commands :: "string list"

text \<open>
  The fields of \<^verbatim>\<open>SmartHomeAssistant\<close> that the modelled methods read or write.
  \<open>gpio_outputs\<close> is the sequence of \<^verbatim>\<open>GPIO.output(pin, level)\<close> calls made so far
  (the actuator is an external collaborator).  \<open>clock_reads\<close> counts the readings of
  \<^verbatim>\<open>datetime.now()\<close> taken so far to stamp a device; the \<open>k\<close>-th of them returns
  \<open>clock k\<close>, where the clock is a parameter of every operation that stamps a device.
\<close>

record Assistant =
  gpio_simulation_mode :: bool
  gpio_outputs :: "(int \<times> bool) list"
  performance_stats :: PerformanceStats
  devices :: "(string \<times> Device) list"
  devices_by_room :: "(string \<times> string list) list"
  devices_by_type :: "(DeviceType \<times> string list) list"
  context' :: Context
  thresholds :: Thresholds
  scenes :: "(string \<times> Scene) list"
  response_cache :: "(string \<times> pydict) list"
  clock_reads :: nat


section \<open>Initial configuration\<close>

text \<open>
  \<^verbatim>\<open>Device.__post_init__\<close> replaces a missing alias list and schedule by empty ones and
  stamps \<^verbatim>\<open>last_changed\<close> with the clock reading \<open>t0\<close> of the construction.
\<close>

definition mk_device ::
  "nat \<Rightarrow> string \<Rightarrow> int \<Rightarrow> DeviceType \<Rightarrow> string list \<Rightarrow> string \<Rightarrow> int \<Rightarrow> Device" where
  "mk_device t0 n p ty al r pw =
     \<lparr>name = n, pin = p, device_type = ty, state = False, aliases = al, room = r,
      power_consumption = pw, schedule = [], last_changed = t0\<rparr>"

definition init_devices :: "nat \<Rightarrow> (string \<times> Device) list" where
  "init_devices t0 =
    [(''living_room_light'', mk_device t0 ''living_room_light'' 7 LIGHT
        [''living room light'', ''main light'', ''lounge light''] ''living_room'' 60),
     (''living_room_fan'', mk_device t0 ''living_room_fan'' 11 FAN
        [''living room fan'', ''main fan''] ''living_room'' 75),
     (''bedroom_light'', mk_device t0 ''bedroom_light'' 13 LIGHT
        [''bedroom light'', ''bed light''] ''bedroom'' 40),
     (''bedroom_ac'', mk_device t0 ''bedroom_ac'' 15 AC
        [''bedroom ac'', ''bedroom air conditioner''] ''bedroom'' 1200),
     (''bedroom_heater'', mk_device t0 ''bedroom_heater'' 31 HEATER
        [''heater'', ''bedroom heater''] ''bedroom'' 1500),
     (''kitchen_light'', mk_device t0 ''kitchen_light'' 16 LIGHT
        [''kitchen light''] ''kitchen'' 80),
     (''kitchen_exhaust'', mk_device t0 ''kitchen_exhaust'' 18 FAN
        [''exhaust fan'', ''kitchen fan''] ''kitchen'' 30),
     (''front_door_lock'', mk_device t0 ''front_door_lock'' 22 DOOR_LOCK
        [''front door'', ''main door'', ''door lock''] ''entrance'' 5),
     (''security_alarm'', mk_device t0 ''security_alarm'' 24 ALARM
        [''alarm'', ''security''] ''general'' 10),
     (''garden_light'', mk_device t0 ''garden_light'' 26 LIGHT
        [''garden'', ''outdoor light'', ''yard light''] ''outdoor'' 100),
     (''smart_outlet_1'', mk_device t0 ''smart_outlet_1'' 29 OUTLET
        [''outlet 1'', ''plug 1''] ''general'' 0)]"

text \<open>
  The secondary indexes are filled once, in registry order:
  \<^verbatim>\<open>for name, device in self.devices.items(): index[key(device)].append(name)\<close>.
\<close>

definition build_index :: "(Device \<Rightarrow> 'k) \<Rightarrow> (string \<times> Device) list \<Rightarrow> ('k \<times> string list) list" where
  "build_index key ds = foldl (\<lambda>dd (n, d). dd_append dd (key d) n) [] ds"

definition init_context :: "string \<Rightarrow> string \<Rightarrow> string \<Rightarrow> nat \<Rightarrow> Context" where
  "init_context tod dow seas t0 =
     \<lparr>temperature = 72, humidity = 45, outdoor_temp = 85, time_of_day = tod,
      day_of_week = dow, season = seas,
      occupancy = [(''living_room'', True), (''bedroom'', False), (''kitchen'', False)],
      power_usage = 0, security_armed = False, sleep_mode = False, vacation_mode = False,
      last_motion = t0\<rparr>"

definition init_thresholds :: Thresholds where
  "init_thresholds =
     \<lparr>temp_comfort_min = 68, temp_comfort_max = 76, humidity_comfort_min = 30,
      humidity_comfort_max = 60, power_limit = 3000\<rparr>"

definition init_scenes :: "(string \<times> Scene) list" where
  "init_scenes =
    [(''movie_night'',
        \<lparr>scene_devices = [(''living_room_light'', False), (''kitchen_light'', False),
                           (''living_room_fan'', True)],
         description = ''Dims lights for movie watching''\<rparr>),
     (''dinner'',
        \<lparr>scene_devices = [(''kitchen_light'', True), (''kitchen_exhaust'', True),
                           (''living_room_light'', True)],
         description = ''Bright kitchen for cooking''\<rparr>),
     (''sleep'',
        \<lparr>scene_devices = [(''bedroom_light'', False), (''bedroom_ac'', True),
                           (''living_room_light'', False), (''kitchen_light'', False),
                           (''garden_light'', False), (''security_alarm'', True)],
         description = ''Nighttime sleep mode''\<rparr>),
     (''wake_up'',
        \<lparr>scene_devices = [(''bedroom_light'', True), (''kitchen_light'', True),
                           (''security_alarm'', False)],
         description = ''Morning wake up routine''\<rparr>),
     (''away'',
        \<lparr>scene_devices = [(''all_lights'', False), (''security_alarm'', True),
                           (''front_door_lock'', True)],
         description = ''Security mode when away''\<rparr>)]"

definition init_performance_stats :: PerformanceStats where
  "init_performance_stats =
     \<lparr>command_latencies = [], inference_times = [], llm_token_counts = [],
      llm_eval_durations = [], cache_hits = 0, cache_misses = 0, total_commands = 0,
      energy_saved = 0, automation_triggers = 0, recent_commands = []\<rparr>"

text \<open>
  The state \<^verbatim>\<open>__init__\<close> builds.  \<open>sim\<close> is \<^verbatim>\<open>_gpio_simulation_mode\<close> after
  \<^verbatim>\<open>_setup_gpio\<close>; \<open>tod\<close>, \<open>dow\<close>, \<open>seas\<close> and \<open>t0\<close> are what the clock gave
  during construction.
\<close>

definition init_assistant :: "bool \<Rightarrow> string \<Rightarrow> string \<Rightarrow> string \<Rightarrow> nat \<Rightarrow> Assistant" where
  "init_assistant sim tod dow seas t0 =
     \<lparr>gpio_simulation_mode = sim, gpio_outputs = [],
      performance_stats = init_performance_stats,
      devices = init_devices t0,
      devices_by_room = build_index room (init_devices t0),
      devices_by_type = build_index device_type (init_devices t0),
      context' = init_context tod dow seas t0,
      thresholds = init_thresholds,
      scenes = init_scenes,
      response_cache = [],
      clock_reads = 0\<rparr>"

text \<open>A fixed start state for concrete evaluations.\<close>

definition assistant0 :: Assistant where
  "assistant0 = init_assistant True ''morning'' ''Monday'' ''summer'' 0"

section \<open>Device controller\<close>

text \<open>
  The loop of \<^verbatim>\<open>_control_devices\<close>.  Its body mutates the registry in place, so the loop
  carries the assistant together with the locals \<^verbatim>\<open>responses\<close> and
  \<^verbatim>\<open>total_power_change\<close>.
\<close>

fun control_loop ::
  "(nat \<Rightarrow> nat) \<Rightarrow> bool \<Rightarrow> string list \<Rightarrow> Assistant \<times> string list \<times> int
   \<Rightarrow> Assistant \<times> string list \<times> int" where
  "control_loop clock st [] acc = acc"
| "control_loop clock st (device_name # rest) (s, responses, total_power_change) =
     (case map_of (devices s) device_name of
        None \<Rightarrow> control_loop clock st rest (s, responses, total_power_change)
      | Some device \<Rightarrow>
          if state device \<noteq> st then
            let s1 = (if gpio_simulation_mode s then s
                      else s\<lparr>gpio_outputs := gpio_outputs s @ [(pin device, st)]\<rparr>);
                power_change = (if st then power_consumption device
                                else - power_consumption device);
                s2 = s1\<lparr>devices :=
                          AList.update device_name
                            (device\<lparr>state := st, last_changed := clock (clock_reads s1)\<rparr>)
                            (devices s1),
                        clock_reads := Suc (clock_reads s1)\<rparr>
            in control_loop clock st rest
                 (s2, responses @ [replace_underscore device_name],
                  total_power_change + power_change)
          else control_loop clock st rest (s, responses, total_power_change))"

text \<open>The warning line: a line feed, U+26A0 U+FE0F in UTF-8, and the text.\<close>

definition warning_prefix :: string where
  "warning_prefix =
     [CHR 0x0A, CHR 0xE2, CHR 0x9A, CHR 0xA0, CHR 0xEF, CHR 0xB8, CHR 0x8F]
     @ ''  Warning: Power usage (''"

definition control_devices ::
  "(nat \<Rightarrow> nat) \<Rightarrow> Assistant \<Rightarrow> string list \<Rightarrow> bool \<Rightarrow> string \<times> Assistant" where
  "control_devices clock s device_names st =
     (case control_loop clock st device_names (s, [], 0) of
        (s1, responses, total_power_change) \<Rightarrow>
          if responses \<noteq> [] then
            let action_str = (if st then ''on'' else ''off'');
                s2 = s1\<lparr>context' := (context' s1)
                        \<lparr>power_usage := power_usage (context' s1) + total_power_change\<rparr>\<rparr>;
                r0 = ''Turned '' @ action_str @ '': '' @ join_comma responses;
                r1 = (if \<bar>total_power_change\<bar> > 100
                      then r0 @ '' (Power change: '' @ fmt_plus_0f total_power_change @ ''W)''
                      else r0);
                r2 = (if power_usage (context' s2) > power_limit (thresholds s2)
                      then r1 @ warning_prefix @ fmt_0f (power_usage (context' s2))
                              @ ''W) exceeds limit!''
                      else r1)
            in (r2, s2)
          else (''No devices were changed.'', s1))"

section \<open>Scenes\<close>

text \<open>The loop of \<^verbatim>\<open>_activate_scene\<close> over \<^verbatim>\<open>scene['devices'].items()\<close>.\<close>

fun apply_scene :: "(nat \<Rightarrow> nat) \<Rightarrow> (string \<times> bool) list \<Rightarrow> Assistant \<Rightarrow> Assistant" where
  "apply_scene clock [] s = s"
| "apply_scene clock ((device_name, desired_state) # rest) s =
     (if device_name = ''all_lights'' then
        (case dd_getitem (devices_by_type s) LIGHT of
           (light_devices, dd) \<Rightarrow>
             apply_scene clock rest
               (snd (control_devices clock (s\<lparr>devices_by_type := dd\<rparr>)
                       light_devices desired_state)))
      else if dict_contains (devices s) device_name then
        apply_scene clock rest (snd (control_devices clock s [device_name] desired_state))
      else apply_scene clock rest s)"

definition activate_scene :: "(nat \<Rightarrow> nat) \<Rightarrow> Assistant \<Rightarrow> string \<Rightarrow> string \<times> Assistant" where
  "activate_scene clock s scene_name =
     (case map_of (scenes s) scene_name of
        None \<Rightarrow> (''Unknown scene. Available: '' @ join_comma (map fst (scenes s)), s)
      | Some scene \<Rightarrow>
          (let s1 = apply_scene clock (scene_devices scene) s
           in (''Scene '' @ [CHR 0x27] @ scene_name @ [CHR 0x27] @ '' activated: ''
                 @ description scene, s1)))"

section \<open>Fallback intent matcher\<close>

definition extract_devices_from_text :: "Assistant \<Rightarrow> string \<Rightarrow> string list \<times> Assistant" where
  "extract_devices_from_text s t =
     (if any_in [''all'', ''everything'', ''entire''] t then
        (if py_in ''light'' t then
           (case dd_getitem (devices_by_type s) LIGHT of
              (l, dd) \<Rightarrow> (l, s\<lparr>devices_by_type := dd\<rparr>))
         else (map fst (devices s), s))
      else
        (map fst
           (filter (\<lambda>(n, device). any_in (replace_underscore n # aliases device) t)
              (devices s)),
         s))"

text \<open>First scene, in table order, whose name with spaces occurs in the text.\<close>

fun match_scene :: "(string \<times> Scene) list \<Rightarrow> string \<Rightarrow> string option" where
  "match_scene [] t = None"
| "match_scene ((scene_name, scene_data) # rest) t =
     (if py_in (replace_underscore scene_name) t then Some scene_name
      else match_scene rest t)"

definition turn_on_keywords :: "string list" where
  "turn_on_keywords = [''turn on'', ''switch on'', ''enable'', ''activate'']"

definition patterns :: "(string \<times> string list) list" where
  "patterns =
     [(''turn_on'', turn_on_keywords),
      (''turn_off'', [''turn off'', ''switch off'', ''disable'', ''deactivate'', ''kill'']),
      (''toggle'', [''toggle'', ''flip''])]"

definition room_keywords :: "(string \<times> string) list" where
  "room_keywords =
     [(''living room'', ''living_room''), (''bedroom'', ''bedroom''),
      (''kitchen'', ''kitchen''), (''garden'', ''outdoor''), (''outside'', ''outdoor'')]"

fun match_patterns ::
  "Assistant \<Rightarrow> string \<Rightarrow> real \<Rightarrow> (string \<times> string list) list \<Rightarrow> pydict option \<times> Assistant" where
  "match_patterns s t confidence [] = (None, s)"
| "match_patterns s t confidence ((intent, keywords) # rest) =
     (if any_in keywords t then
        (case extract_devices_from_text s t of
           (devs, s1) \<Rightarrow>
             if devs \<noteq> [] then
               (Some [(''intent'', PStr intent),
                      (''devices'', PList (map PStr devs)),
                      (''confidence'', PFloat confidence),
                      (''reasoning'', PStr (''Pattern match for '' @ intent))], s1)
             else match_patterns s1 t confidence rest)
      else match_patterns s t confidence rest)"

text \<open>
  \<^verbatim>\<open>[d for d in ds if self.devices[d].device_type == DeviceType.LIGHT]\<close>; a name that is
  not in the registry raises \<^verbatim>\<open>KeyError\<close>.
\<close>

fun light_devices_of :: "(string \<times> Device) list \<Rightarrow> string list \<Rightarrow> py_error + string list" where
  "light_devices_of devs [] = Inr []"
| "light_devices_of devs (d # ds) =
     (case map_of devs d of
        None \<Rightarrow> Inl KeyError
      | Some device \<Rightarrow>
          (case light_devices_of devs ds of
             Inl e \<Rightarrow> Inl e
           | Inr r \<Rightarrow> Inr (if device_type device = LIGHT then d # r else r)))"

fun match_rooms ::
  "Assistant \<Rightarrow> string \<Rightarrow> real \<Rightarrow> (string \<times> string) list
   \<Rightarrow> (py_error + pydict option) \<times> Assistant" where
  "match_rooms s t confidence [] = (Inr None, s)"
| "match_rooms s t confidence ((keyword, room_id) # rest) =
     (if py_in keyword t then
        (case dd_getitem (devices_by_room s) room_id of
           (room_devices, dd) \<Rightarrow>
             let s1 = s\<lparr>devices_by_room := dd\<rparr> in
             (case (if py_in ''light'' t then light_devices_of (devices s1) room_devices
                    else Inr room_devices) of
                Inl e \<Rightarrow> (Inl e, s1)
              | Inr devs \<Rightarrow>
                  if devs \<noteq> [] then
                    let intent = (if any_in turn_on_keywords t then ''turn_on''
                                  else ''turn_off'')
                    in (Inr (Some [(''intent'', PStr intent),
                                   (''devices'', PList (map PStr devs)),
                                   (''confidence'', PFloat (confidence - 0.02)),
                                   (''reasoning'',
                                      PStr (''Room-based command for '' @ room_id))]), s1)
                  else match_rooms s1 t confidence rest))
      else match_rooms s t confidence rest)"

text \<open>\<^verbatim>\<open>_fast_pattern_match\<close>; \<open>str_lower\<close> is \<^verbatim>\<open>str.lower\<close>.\<close>

definition fast_pattern_match ::
  "(string \<Rightarrow> string) \<Rightarrow> Assistant \<Rightarrow> string \<Rightarrow> bool
   \<Rightarrow> (py_error + pydict) \<times> Assistant" where
  "fast_pattern_match str_lower s user_input is_fallback =
     (let t = str_lower user_input;
          confidence = (if \<not> is_fallback then 1.0 else 0.5)
      in case match_scene (scenes s) t of
           Some scene_name \<Rightarrow>
             (Inr [(''intent'', PStr ''activate_scene''),
                   (''scene'', PStr scene_name),
                   (''confidence'', PFloat confidence),
                   (''reasoning'', PStr (''Activating '' @ scene_name @ '' scene''))], s)
         | None \<Rightarrow>
             (case match_patterns s t confidence patterns of
                (Some intent, s1) \<Rightarrow> (Inr intent, s1)
              | (None, s1) \<Rightarrow>
                  (case match_rooms s1 t confidence room_keywords of
                     (Inl e, s2) \<Rightarrow> (Inl e, s2)
                   | (Inr (Some intent), s2) \<Rightarrow> (Inr intent, s2)
                   | (Inr None, s2) \<Rightarrow>
                       if any_in [''hot'', ''warm'', ''sweating''] t then
                         (Inr [(''intent'', PStr ''set_temperature''),
                               (''value'', PStr ''decrease''),
                               (''confidence'', PFloat 0.8),
                               (''reasoning'', PStr ''User feels hot'')], s2)
                       else if any_in [''cold'', ''freezing'', ''chilly''] t then
                         (Inr [(''intent'', PStr ''set_temperature''),
                               (''value'', PStr ''increase''),
                               (''confidence'', PFloat 0.8),
                               (''reasoning'', PStr ''User feels cold'')], s2)
                       else if any_in [''status'', ''what'' @ [CHR 0x27] @ ''s on'',
                                       ''check'', ''show''] t then
                         (Inr [(''intent'', PStr ''check_status''),
                               (''confidence'', PFloat 0.9),
                               (''reasoning'', PStr ''Status check request'')], s2)
                       else
                         (Inr [(''intent'', PStr ''unknown''),
                               (''confidence'', PFloat 0.1),
                               (''reasoning'', PStr ''No pattern matched'')], s2))))"

section \<open>Command interpretation and response cache\<close>











section \<open>Temperature regulation and the context-refresh loop\<close>

text \<open>
  Lines 657 to 671 of \<^verbatim>\<open>_control_devices\<close>, the part after the loop: it works on the
  assistant as it is when the lines run and on the locals \<^verbatim>\<open>responses\<close> and
  \<^verbatim>\<open>total_power_change\<close> of the call.
\<close>

definition control_commit :: "bool \<Rightarrow> Assistant \<Rightarrow> string list \<Rightarrow> int \<Rightarrow> string \<times> Assistant" where
  "control_commit st s1 responses total_power_change =
     (if responses \<noteq> [] then
        let action_str = (if st then ''on'' else ''off'');
            s2 = s1\<lparr>context' := (context' s1)
                    \<lparr>power_usage := power_usage (context' s1) + total_power_change\<rparr>\<rparr>;
            r0 = ''Turned '' @ action_str @ '': '' @ join_comma responses;
            r1 = (if \<bar>total_power_change\<bar> > 100
                  then r0 @ '' (Power change: '' @ fmt_plus_0f total_power_change @ ''W)''
                  else r0);
            r2 = (if power_usage (context' s2) > power_limit (thresholds s2)
                  then r1 @ warning_prefix @ fmt_0f (power_usage (context' s2))
                          @ ''W) exceeds limit!''
                  else r1)
        in (r2, s2)
      else (''No devices were changed.'', s1))"

text \<open>\<^verbatim>\<open>dd.get(k, [])\<close>: a read that inserts nothing.\<close>

definition dd_get :: "('k \<times> 'v list) list \<Rightarrow> 'k \<Rightarrow> 'v list" where
  "dd_get dd k = (case map_of dd k of Some v \<Rightarrow> v | None \<Rightarrow> [])"

text \<open>\<^verbatim>\<open>str(n)\<close> for an integer.\<close>

definition str_int :: "int \<Rightarrow> string" where
  "str_int x = (if x < 0 then ''-'' @ digits (nat (- x)) else digits (nat x))"

text \<open>The end of both reports of \<^verbatim>\<open>_temperature_regulation\<close>: U+00B0 in UTF-8 and \<^verbatim>\<open>F\<close>.\<close>

definition degrees_F :: string where
  "degrees_F = [CHR 0xC2, CHR 0xB0] @ ''F''"

definition temperature_regulation ::
  "(nat \<Rightarrow> nat) \<Rightarrow> Assistant \<Rightarrow> string \<Rightarrow> string \<times> Assistant" where
  "temperature_regulation clock s direction =
     (let current_temp = temperature (context' s) in
      if direction = ''increase'' \<or> direction = ''heat'' then
        (let s1 = snd (control_devices clock s (dd_get (devices_by_type s) HEATER) True);
             s2 = snd (control_devices clock s1 (dd_get (devices_by_type s1) FAN) False);
             s3 = snd (control_devices clock s2 (dd_get (devices_by_type s2) AC) False)
         in (''Heating mode activated. Current temperature: '' @ str_int current_temp
               @ degrees_F, s3))
      else if direction = ''decrease'' \<or> direction = ''cool'' then
        (let s1 = snd (control_devices clock s (dd_get (devices_by_type s) AC) True);
             s2 = snd (control_devices clock s1 (dd_get (devices_by_type s1) FAN) True);
             s3 = snd (control_devices clock s2 (dd_get (devices_by_type s2) HEATER) False)
         in (''Cooling mode activated. Current temperature: '' @ str_int current_temp
               @ degrees_F, s3))
      else
        (''Please specify '' @ [CHR 0x27] @ ''increase'' @ [CHR 0x27] @ '' or ''
           @ [CHR 0x27] @ ''decrease'' @ [CHR 0x27] @ '' for temperature control.'', s))"

text \<open>\<^verbatim>\<open>get_time_context\<close>, on the hour of the clock.\<close>

definition get_time_context :: "nat \<Rightarrow> string" where
  "get_time_context hour =
     (if 5 \<le> hour \<and> hour < 12 then ''morning''
      else if 12 \<le> hour \<and> hour < 17 then ''afternoon''
      else if 17 \<le> hour \<and> hour < 21 then ''evening''
      else ''night'')"

text \<open>
  \<^verbatim>\<open>sum(d.power_consumption for d in self.devices.values() if d.state)\<close> and the
  assignment of lines 797 and 798.
\<close>

definition on_power :: "(string \<times> Device) list \<Rightarrow> int" where
  "on_power ds = sum_list (map (\<lambda>(n, d). power_consumption d) (filter (\<lambda>(n, d). state d) ds))"

definition refresh_power :: "Assistant \<Rightarrow> Assistant" where
  "refresh_power s = s\<lparr>context' := (context' s)\<lparr>power_usage := on_power (devices s)\<rparr>\<rparr>"

text \<open>
  One iteration of the loop of \<^verbatim>\<open>_context_updater\<close>, up to the sleep.  \<open>hour\<close> and
  \<open>weekday\<close> are what the clock gives.  Of the three automation rules, all enabled, only
  \<^verbatim>\<open>temperature_control\<close> has the trigger \<^verbatim>\<open>condition\<close>; its condition is the comparison
  with \<^verbatim>\<open>temp_comfort_max\<close> and its action is \<^verbatim>\<open>_temperature_regulation('cool')\<close>.
\<close>

definition context_updater_iteration ::
  "(nat \<Rightarrow> nat) \<Rightarrow> nat \<Rightarrow> string \<Rightarrow> Assistant \<Rightarrow> Assistant" where
  "context_updater_iteration clock hour weekday s =
     (let s1 = s\<lparr>context' := (context' s)
                   \<lparr>time_of_day := get_time_context hour, day_of_week := weekday\<rparr>\<rparr>;
          s2 = refresh_power s1
      in if temperature (context' s2) > temp_comfort_max (thresholds s2) then
           (let s3 = snd (temperature_regulation clock s2 ''cool'')
            in s3\<lparr>performance_stats := (performance_stats s3)
                   \<lparr>automation_triggers :=
                      automation_triggers (performance_stats s3) + 1\<rparr>\<rparr>)
         else s2)"

section \<open>Properties of states used in the statements\<close>

text \<open>The secondary indexes are the ones built from the registry.\<close>

definition indexes_built :: "Assistant \<Rightarrow> bool" where
  "indexes_built s =
     (devices_by_room s = build_index room (devices s)
      \<and> devices_by_type s = build_index device_type (devices s))"

text \<open>
  The configuration the matcher relies on: built indexes, a light in the registry and a
  device in every room of the room-keyword table.
\<close>

definition configured :: "Assistant \<Rightarrow> bool" where
  "configured s =
     (indexes_built s
      \<and> dict_contains (devices_by_type s) LIGHT
      \<and> list_all (\<lambda>(keyword, room_id). dict_contains (devices_by_room s) room_id)
           room_keywords)"

text \<open>The registered devices of a batch that are not yet in the desired state.\<close>

definition to_change :: "Assistant \<Rightarrow> string list \<Rightarrow> bool \<Rightarrow> string list" where
  "to_change s device_names st =
     filter (\<lambda>n. case map_of (devices s) n of None \<Rightarrow> False | Some d \<Rightarrow> state d \<noteq> st)
       device_names"

text \<open>The rated draw of a name: \<open>0\<close> for a name that is not registered.\<close>

definition rated_power :: "Assistant \<Rightarrow> string \<Rightarrow> int" where
  "rated_power s n =
     (case map_of (devices s) n of None \<Rightarrow> 0 | Some d \<Rightarrow> power_consumption d)"


section \<open>Auxiliary definitions for the proofs\<close>

text \<open>The body of the loop of \<^verbatim>\<open>_control_devices\<close> for a device that has to change.\<close>

definition flip_device :: "(nat \<Rightarrow> nat) \<Rightarrow> bool \<Rightarrow> string \<Rightarrow> Device \<Rightarrow> Assistant \<Rightarrow> Assistant" where
  "flip_device clock st n d s =
     (let s1 = (if gpio_simulation_mode s then s
                else s\<lparr>gpio_outputs := gpio_outputs s @ [(pin d, st)]\<rparr>)
      in s1\<lparr>devices := AList.update n (d\<lparr>state := st, last_changed := clock (clock_reads s1)\<rparr>) (devices s1),
            clock_reads := Suc (clock_reads s1)\<rparr>)"


text \<open>Concrete states for evaluations: the start state with some devices switched on.\<close>

definition everything_on :: Assistant where
  "everything_on =
     assistant0\<lparr>devices := map (\<lambda>(n, d). (n, d\<lparr>state := True\<rparr>)) (devices assistant0),
                context' := (context' assistant0)\<lparr>power_usage := 3100\<rparr>\<rparr>"

definition all_but_garden_on :: Assistant where
  "all_but_garden_on =
     assistant0\<lparr>devices := map (\<lambda>(n, d). (n, d\<lparr>state := (n \<noteq> ''garden_light'')\<rparr>))
                             (devices assistant0),
                context' := (context' assistant0)\<lparr>power_usage := 3000\<rparr>\<rparr>"

definition bedroom_light_on :: Assistant where
  "bedroom_light_on = snd (control_devices id assistant0 [''bedroom_light''] True)"

text \<open>
  What the matcher reads of a state: names, aliases and types of the registry, the two
  indexes and the scene names.  Device states, timestamps, the context, the cache and the
  counters are not part of it.
\<close>

definition static_registry :: "Assistant \<Rightarrow> (string \<times> string list \<times> DeviceType) list" where
  "static_registry s = map (\<lambda>(n, d). (n, aliases d, device_type d)) (devices s)"

definition same_static :: "Assistant \<Rightarrow> Assistant \<Rightarrow> bool" where
  "same_static s s' =
     (static_registry s = static_registry s'
      \<and> devices_by_room s = devices_by_room s'
      \<and> devices_by_type s = devices_by_type s'
      \<and> map fst (scenes s) = map fst (scenes s'))"

text \<open>The intent returned when no stage of the matcher applies.\<close>

definition unknown_intent :: pydict where
  "unknown_intent =
     [(''intent'', PStr ''unknown''), (''confidence'', PFloat 0.1),
      (''reasoning'', PStr ''No pattern matched'')]"

text \<open>
  The confidence rule of claim C5, once as the claim words it and once as the program has
  it.  An intent is room-based when its reasoning says so.
\<close>

definition room_based :: "pydict \<Rightarrow> bool" where
  "room_based i =
     (case map_of i ''reasoning'' of
        Some (PStr r) \<Rightarrow> startswith ''Room-based command for '' r
      | _ \<Rightarrow> False)"

definition claimed_confidence :: "bool \<Rightarrow> pydict \<Rightarrow> real" where
  "claimed_confidence is_fallback i =
     (let base = (if is_fallback then 0.5 else 1.0) in
      if map_of i ''intent'' = Some (PStr ''unknown'') then 0.1
      else if room_based i then base - 0.02
      else base)"

definition amended_confidence :: "bool \<Rightarrow> pydict \<Rightarrow> real" where
  "amended_confidence is_fallback i =
     (let base = (if is_fallback then 0.5 else 1.0) in
      if map_of i ''intent'' = Some (PStr ''unknown'') then 0.1
      else if map_of i ''intent'' = Some (PStr ''set_temperature'') then 0.8
      else if map_of i ''intent'' = Some (PStr ''check_status'') then 0.9
      else if room_based i then base - 0.02
      else base)"

text \<open>
  The devices the room stage selects for a room: the lights of the room when the text
  mentions \<^verbatim>\<open>light\<close>, the whole room otherwise.
\<close>

definition room_selection :: "Assistant \<Rightarrow> string \<Rightarrow> string \<Rightarrow> py_error + string list" where
  "room_selection s t room_id =
     (let room_devices = fst (dd_getitem (devices_by_room s) room_id) in
      if py_in ''light'' t then light_devices_of (devices s) room_devices
      else Inr room_devices)"

text \<open>
  No stage of the matcher applies to the (lowered) text: no scene name occurs, an action
  keyword occurs only when no device is extracted, a room keyword occurs only when the
  selection for its room is empty, and no feeling or status word occurs.
\<close>

definition nothing_matches :: "Assistant \<Rightarrow> string \<Rightarrow> bool" where
  "nothing_matches s t =
     (match_scene (scenes s) t = None
      \<and> (list_ex (\<lambda>(intent, keywords). any_in keywords t) patterns
           \<longrightarrow> fst (extract_devices_from_text s t) = [])
      \<and> list_all (\<lambda>(keyword, room_id). py_in keyword t \<longrightarrow> room_selection s t room_id = Inr [])
           room_keywords
      \<and> \<not> any_in [''hot'', ''warm'', ''sweating''] t
      \<and> \<not> any_in [''cold'', ''freezing'', ''chilly''] t
      \<and> \<not> any_in [''status'', ''what'' @ [CHR 0x27] @ ''s on'', ''check'', ''show''] t)"

text \<open>Intents used in concrete evaluations of the matcher.\<close>

definition status_intent :: pydict where
  "status_intent =
     [(''intent'', PStr ''check_status''), (''confidence'', PFloat 0.9),
      (''reasoning'', PStr ''Status check request'')]"

definition kitchen_room_intent :: pydict where
  "kitchen_room_intent =
     [(''intent'', PStr ''turn_off''),
      (''devices'', PList [PStr ''kitchen_light'', PStr ''kitchen_exhaust'']),
      (''confidence'', PFloat 0.48),
      (''reasoning'', PStr ''Room-based command for kitchen'')]"

text \<open>
  Scene activation as the specification words it: every pair of the scene is applied
  through the device controller, the group token \<^verbatim>\<open>all_lights\<close> standing for every device
  of light type.
\<close>

definition lights_of :: "Assistant \<Rightarrow> string list" where
  "lights_of s = map fst (filter (\<lambda>(n, d). device_type d = LIGHT) (devices s))"

definition expand_group :: "Assistant \<Rightarrow> string \<Rightarrow> string list" where
  "expand_group s device_name =
     (if device_name = ''all_lights'' then lights_of s else [device_name])"

fun apply_pairs :: "(nat \<Rightarrow> nat) \<Rightarrow> (string \<times> bool) list \<Rightarrow> Assistant \<Rightarrow> Assistant" where
  "apply_pairs clock [] s = s"
| "apply_pairs clock ((device_name, desired_state) # rest) s =
     apply_pairs clock rest
       (snd (control_devices clock s (expand_group s device_name) desired_state))"




text \<open>
  Power accounting.  A state is consistent when \<^verbatim>\<open>power_usage\<close> is the sum of the rated
  draws of the devices that are on.  Operations that run one after the other, each to
  completion: a call of \<^verbatim>\<open>_control_devices\<close> or an iteration of the context-refresh loop.
\<close>

definition power_consistent :: "Assistant \<Rightarrow> bool" where
  "power_consistent s = (power_usage (context' s) = on_power (devices s))"

datatype operation = SetDevices "string list" bool | ContextRefresh nat string

fun run_operation :: "(nat \<Rightarrow> nat) \<Rightarrow> Assistant \<Rightarrow> operation \<Rightarrow> Assistant" where
  "run_operation clock s (SetDevices device_names st) =
     snd (control_devices clock s device_names st)"
| "run_operation clock s (ContextRefresh hour weekday) =
     context_updater_iteration clock hour weekday s"

definition run_sequentially :: "(nat \<Rightarrow> nat) \<Rightarrow> operation list \<Rightarrow> Assistant \<Rightarrow> Assistant" where
  "run_sequentially clock ops s = foldl (run_operation clock) s ops"

text \<open>
  An interleaving of two threads from the start state.  The thread of
  \<^verbatim>\<open>_control_devices(['kitchen_light'], True)\<close> runs its loop (\<open>after_loop\<close>), the
  context-refresh thread runs one iteration (\<open>after_refresh\<close>), and the first thread
  resumes at line 657 with its locals (\<open>after_commit\<close>).
\<close>

definition after_loop :: "Assistant \<times> string list \<times> int" where
  "after_loop = control_loop id True [''kitchen_light''] (assistant0, [], 0)"

definition after_refresh :: Assistant where
  "after_refresh = context_updater_iteration id 9 ''Monday'' (fst after_loop)"

definition after_commit :: Assistant where
  "after_commit =
     snd (control_commit True after_refresh (fst (snd after_loop)) (snd (snd after_loop)))"

section \<open>Substrings\<close>

lemma startswith_iff: "startswith kw t \<longleftrightarrow> (\<exists>ss. t = kw @ ss)"
  by (induction kw t rule: startswith.induct) auto

lemma py_in_iff: "py_in kw t \<longleftrightarrow> (\<exists>ps ss. t = ps @ kw @ ss)"
proof (induction t)
  case Nil
  then show ?case by auto
next
  case (Cons c cs)
  show ?case
  proof
    assume "py_in kw (c # cs)"
    then consider "startswith kw (c # cs)" | "py_in kw cs" by auto
    then show "\<exists>ps ss. c # cs = ps @ kw @ ss"
    proof cases
      case 1
      then obtain ss where "c # cs = kw @ ss" by (auto simp: startswith_iff)
      then have "c # cs = [] @ kw @ ss" by simp
      then show ?thesis by blast
    next
      case 2
      then obtain ps ss where "cs = ps @ kw @ ss" using Cons.IH by auto
      then have "c # cs = (c # ps) @ kw @ ss" by simp
      then show ?thesis by blast
    qed
  next
    assume "\<exists>ps ss. c # cs = ps @ kw @ ss"
    then obtain ps ss where e: "c # cs = ps @ kw @ ss" by blast
    show "py_in kw (c # cs)"
    proof (cases ps)
      case Nil
      then have "startswith kw (c # cs)" using e by (auto simp: startswith_iff)
      then show ?thesis by simp
    next
      case (Cons p ps')
      then have "cs = ps' @ kw @ ss" using e by simp
      then have "py_in kw cs" using Cons.IH by blast
      then show ?thesis by simp
    qed
  qed
qed

section \<open>The loop of the device controller\<close>

lemma control_loop_unknown:
  "map_of (devices s) n = None \<Longrightarrow>
   control_loop clock st (n # rest) (s, r, t) = control_loop clock st rest (s, r, t)"
  by simp

lemma control_loop_same:
  "map_of (devices s) n = Some d \<Longrightarrow> state d = st \<Longrightarrow>
   control_loop clock st (n # rest) (s, r, t) = control_loop clock st rest (s, r, t)"
  by simp

lemma control_loop_flip:
  "map_of (devices s) n = Some d \<Longrightarrow> state d \<noteq> st \<Longrightarrow>
   control_loop clock st (n # rest) (s, r, t) =
     control_loop clock st rest
       (flip_device clock st n d s, r @ [replace_underscore n],
        t + (if st then power_consumption d else - power_consumption d))"
  by (simp add: flip_device_def Let_def)

lemma flip_device_lookup:
  "map_of (devices (flip_device clock st n d s)) =
     (map_of (devices s))(n \<mapsto> d\<lparr>state := st, last_changed := clock (clock_reads s)\<rparr>)"
  by (simp add: flip_device_def Let_def update_conv')

lemma flip_device_frame:
  "context' (flip_device clock st n d s) = context' s"
  "thresholds (flip_device clock st n d s) = thresholds s"
  "gpio_simulation_mode (flip_device clock st n d s) = gpio_simulation_mode s"
  by (simp_all add: flip_device_def Let_def)

lemma to_change_Cons_unknown:
  "map_of (devices s) n = None \<Longrightarrow> to_change s (n # rest) st = to_change s rest st"
  by (simp add: to_change_def)

lemma to_change_Cons_same:
  "map_of (devices s) n = Some d \<Longrightarrow> state d = st \<Longrightarrow> to_change s (n # rest) st = to_change s rest st"
  by (simp add: to_change_def)

lemma to_change_Cons_flip:
  "map_of (devices s) n = Some d \<Longrightarrow> state d \<noteq> st \<Longrightarrow> to_change s (n # rest) st = n # to_change s rest st"
  by (simp add: to_change_def)

lemma to_change_after_flip:
  "to_change (flip_device clock st n d s) names st = filter (\<lambda>m. m \<noteq> n) (to_change s names st)"
  by (induction names) (auto simp: to_change_def flip_device_lookup)

lemma rated_power_after_flip:
  "map_of (devices s) n = Some d \<Longrightarrow> rated_power (flip_device clock st n d s) m = rated_power s m"
  by (simp add: rated_power_def flip_device_lookup)

lemma control_loop_no_change:
  "to_change s names st = [] \<Longrightarrow> control_loop clock st names (s, r, t) = (s, r, t)"
proof (induction names)
  case Nil
  then show ?case by simp
next
  case (Cons n rest)
  then show ?case
    by (cases "map_of (devices s) n") (auto simp: to_change_def split: if_splits)
qed

lemma control_loop_responses:
  "control_loop clock st names (s, r, t) = (s', r', t') \<Longrightarrow>
   (r' = [] \<longleftrightarrow> r = [] \<and> to_change s names st = [])"
proof (induction names arbitrary: s r t)
  case Nil
  then show ?case by (simp add: to_change_def)
next
  case (Cons n rest)
  show ?case
  proof (cases "map_of (devices s) n")
    case None
    then show ?thesis using Cons by (simp add: to_change_Cons_unknown)
  next
    case (Some d)
    show ?thesis
    proof (cases "state d = st")
      case True
      then show ?thesis using Cons Some by (simp add: to_change_Cons_same)
    next
      case False
      have "control_loop clock st rest (flip_device clock st n d s, r @ [replace_underscore n],
               t + (if st then power_consumption d else - power_consumption d)) = (s', r', t')"
        using Cons.prems by (simp only: control_loop_flip[OF Some False])
      from Cons.IH[OF this] have "r' \<noteq> []" by simp
      then show ?thesis using Some False by (simp add: to_change_Cons_flip)
    qed
  qed
qed

lemma control_loop_total:
  "control_loop clock st names (s, r, t) = (s', r', t') \<Longrightarrow>
   t' = t + (if st then 1 else -1) * (\<Sum>n\<in>set (to_change s names st). rated_power s n)"
proof (induction names arbitrary: s r t)
  case Nil
  then show ?case by (simp add: to_change_def)
next
  case (Cons n rest)
  show ?case
  proof (cases "map_of (devices s) n")
    case None
    then show ?thesis using Cons by (simp add: to_change_Cons_unknown)
  next
    case (Some d)
    show ?thesis
    proof (cases "state d = st")
      case True
      then show ?thesis using Cons Some by (simp add: to_change_Cons_same)
    next
      case False
      let ?s2 = "flip_device clock st n d s"
      let ?A = "set (to_change s rest st)"
      have step: "control_loop clock st rest (?s2, r @ [replace_underscore n],
               t + (if st then power_consumption d else - power_consumption d)) = (s', r', t')"
        using Cons.prems by (simp only: control_loop_flip[OF Some False])
      have A2: "set (to_change ?s2 rest st) = ?A - {n}"
        by (auto simp: to_change_after_flip)
      have pw: "\<And>m. rated_power ?s2 m = rated_power s m"
        using Some by (rule rated_power_after_flip)
      have pn: "rated_power s n = power_consumption d"
        using Some by (simp add: rated_power_def)
      have "(\<Sum>m\<in>insert n ?A. rated_power s m) = rated_power s n + (\<Sum>m\<in>?A - {n}. rated_power s m)"
        by (simp add: sum.insert_remove)
      then have sum: "(\<Sum>m\<in>set (to_change s (n # rest) st). rated_power s m)
                 = power_consumption d + (\<Sum>m\<in>set (to_change ?s2 rest st). rated_power ?s2 m)"
        using Some False by (simp add: to_change_Cons_flip A2 pw pn)
      from Cons.IH[OF step] show ?thesis
        unfolding sum by (simp add: algebra_simps)
    qed
  qed
qed

lemma control_loop_frame:
  "control_loop clock st names (s, r, t) = (s', r', t') \<Longrightarrow>
   context' s' = context' s \<and> thresholds s' = thresholds s"
proof (induction names arbitrary: s r t)
  case Nil
  then show ?case by simp
next
  case (Cons n rest)
  show ?case
  proof (cases "map_of (devices s) n")
    case None
    then show ?thesis using Cons by simp
  next
    case (Some d)
    show ?thesis
    proof (cases "state d = st")
      case True
      then show ?thesis using Cons Some by simp
    next
      case False
      have "control_loop clock st rest (flip_device clock st n d s, r @ [replace_underscore n],
               t + (if st then power_consumption d else - power_consumption d)) = (s', r', t')"
        using Cons.prems by (simp only: control_loop_flip[OF Some False])
      from Cons.IH[OF this] show ?thesis by (simp add: flip_device_frame)
    qed
  qed
qed

text \<open>
  Every registered device stays registered with its rated power, and the named ones end
  in the desired state.
\<close>

lemma control_loop_devices:
  "control_loop clock st names (s, r, t) = (s', r', t') \<Longrightarrow>
   map_of (devices s) m = Some d \<Longrightarrow>
   \<exists>d'. map_of (devices s') m = Some d' \<and> power_consumption d' = power_consumption d
        \<and> state d' = (if m \<in> set names then st else state d)"
proof (induction names arbitrary: s r t d)
  case Nil
  then show ?case by simp
next
  case (Cons n rest)
  show ?case
  proof (cases "map_of (devices s) n")
    case None
    then have "m \<noteq> n" using Cons.prems(2) by auto
    then show ?thesis using Cons None by simp
  next
    case (Some dn)
    show ?thesis
    proof (cases "state dn = st")
      case True
      have "control_loop clock st rest (s, r, t) = (s', r', t')"
        using Cons.prems(1) Some True by simp
      from Cons.IH[OF this Cons.prems(2)] show ?thesis
        using Some True Cons.prems(2) by auto
    next
      case False
      let ?s2 = "flip_device clock st n dn s"
      have step: "control_loop clock st rest (?s2, r @ [replace_underscore n],
               t + (if st then power_consumption dn else - power_consumption dn)) = (s', r', t')"
        using Cons.prems(1) by (simp only: control_loop_flip[OF Some False])
      show ?thesis
      proof (cases "m = n")
        case True
        then have "map_of (devices ?s2) m = Some (dn\<lparr>state := st, last_changed := clock (clock_reads s)\<rparr>)"
          by (simp add: flip_device_lookup)
        from Cons.IH[OF step this] show ?thesis using True Some Cons.prems(2) by (auto split: if_splits)
      next
        case False
        then have "map_of (devices ?s2) m = Some d"
          using Cons.prems(2) by (simp add: flip_device_lookup)
        from Cons.IH[OF step this] show ?thesis using False by auto
      qed
    qed
  qed
qed


lemma control_loop_unregistered:
  "control_loop clock st names (s, r, t) = (s', r', t') \<Longrightarrow>
   map_of (devices s) m = None \<Longrightarrow> map_of (devices s') m = None"
proof (induction names arbitrary: s r t)
  case Nil
  then show ?case by simp
next
  case (Cons n rest)
  show ?case
  proof (cases "map_of (devices s) n")
    case None
    then show ?thesis using Cons by simp
  next
    case (Some dn)
    show ?thesis
    proof (cases "state dn = st")
      case True
      then show ?thesis using Cons Some by simp
    next
      case False
      let ?s2 = "flip_device clock st n dn s"
      have step: "control_loop clock st rest (?s2, r @ [replace_underscore n],
               t + (if st then power_consumption dn else - power_consumption dn)) = (s', r', t')"
        using Cons.prems(1) by (simp only: control_loop_flip[OF Some False])
      have "m \<noteq> n" using Some Cons.prems(2) by auto
      then have "map_of (devices ?s2) m = None"
        using Cons.prems(2) by (simp add: flip_device_lookup)
      from Cons.IH[OF step this] show ?thesis .
    qed
  qed
qed

lemma control_devices_power:
  "power_usage (context' (snd (control_devices clock s names st))) =
     power_usage (context' s)
       + (if st then 1 else -1) * (\<Sum>n\<in>set (to_change s names st). rated_power s n)"
proof -
  obtain s1 r1 t1 where loop: "control_loop clock st names (s, [], 0) = (s1, r1, t1)"
    by (cases "control_loop clock st names (s, [], 0)") auto
  have t1: "t1 = (if st then 1 else -1) * (\<Sum>n\<in>set (to_change s names st). rated_power s n)"
    using control_loop_total[OF loop] by simp
  have fr: "context' s1 = context' s" using control_loop_frame[OF loop] by simp
  have r1: "r1 = [] \<longleftrightarrow> to_change s names st = []"
    using control_loop_responses[OF loop] by simp
  show ?thesis
  proof (cases "r1 = []")
    case True
    then have "to_change s names st = []" using r1 by simp
    then show ?thesis using True loop fr by (simp add: control_devices_def)
  next
    case False
    then show ?thesis using loop fr t1 by (simp add: control_devices_def Let_def)
  qed
qed

lemma control_devices_devices:
  assumes "map_of (devices s) m = Some d"
  shows "\<exists>d'. map_of (devices (snd (control_devices clock s names st))) m = Some d'
            \<and> power_consumption d' = power_consumption d
            \<and> state d' = (if m \<in> set names then st else state d)"
proof -
  obtain s1 r1 t1 where loop: "control_loop clock st names (s, [], 0) = (s1, r1, t1)"
    by (cases "control_loop clock st names (s, [], 0)") auto
  have "devices (snd (control_devices clock s names st)) = devices s1"
    using loop by (simp add: control_devices_def Let_def)
  then show ?thesis using control_loop_devices[OF loop assms] by simp
qed

lemma control_devices_unregistered:
  assumes "map_of (devices s) m = None"
  shows "map_of (devices (snd (control_devices clock s names st))) m = None"
proof -
  obtain s1 r1 t1 where loop: "control_loop clock st names (s, [], 0) = (s1, r1, t1)"
    by (cases "control_loop clock st names (s, [], 0)") auto
  have "devices (snd (control_devices clock s names st)) = devices s1"
    using loop by (simp add: control_devices_def Let_def)
  then show ?thesis using control_loop_unregistered[OF loop assms] by simp
qed

lemma rated_power_control_devices:
  "rated_power (snd (control_devices clock s names st)) m = rated_power s m"
proof (cases "map_of (devices s) m")
  case None
  then show ?thesis using control_devices_unregistered[OF None] by (simp add: rated_power_def)
next
  case (Some d)
  then show ?thesis using control_devices_devices[OF Some, of clock names st]
    by (auto simp: rated_power_def)
qed

lemma to_change_after_on:
  "set (to_change (snd (control_devices clock s names True)) names False)
     = {n \<in> set names. map_of (devices s) n \<noteq> None}"
proof -
  let ?s1 = "snd (control_devices clock s names True)"
  have "\<And>n. n \<in> set names \<Longrightarrow>
          (case map_of (devices ?s1) n of None \<Rightarrow> False | Some d \<Rightarrow> state d \<noteq> False)
            = (map_of (devices s) n \<noteq> None)"
  proof -
    fix n assume n: "n \<in> set names"
    show "(case map_of (devices ?s1) n of None \<Rightarrow> False | Some d \<Rightarrow> state d \<noteq> False)
            = (map_of (devices s) n \<noteq> None)"
    proof (cases "map_of (devices s) n")
      case None
      then show ?thesis using control_devices_unregistered[OF None, of clock names True] by simp
    next
      case (Some d)
      then show ?thesis using control_devices_devices[OF Some, of clock names True] n by auto
    qed
  qed
  then show ?thesis by (auto simp: to_change_def)
qed

lemma round_trip_power:
  "power_usage (context' (snd (control_devices clock
       (snd (control_devices clock s names True)) names False)))
   = power_usage (context' s)
       - (\<Sum>n\<in>{n \<in> set names. case map_of (devices s) n of None \<Rightarrow> False | Some d \<Rightarrow> state d}.
            rated_power s n)"
proof -
  let ?s1 = "snd (control_devices clock s names True)"
  let ?A = "set (to_change s names True)"
  let ?B = "{n \<in> set names. map_of (devices s) n \<noteq> None}"
  let ?C = "{n \<in> set names. case map_of (devices s) n of None \<Rightarrow> False | Some d \<Rightarrow> state d}"
  have AB: "?A \<subseteq> ?B" by (auto simp: to_change_def split: option.splits)
  have C: "?C = ?B - ?A" by (auto simp: to_change_def split: option.splits)
  have fin: "finite ?B" by simp
  have "(\<Sum>n\<in>?B. rated_power s n) = (\<Sum>n\<in>?B - ?A. rated_power s n) + (\<Sum>n\<in>?A. rated_power s n)"
    using sum.subset_diff[OF AB fin, of "rated_power s"] by simp
  then have split: "(\<Sum>n\<in>?B. rated_power s n) = (\<Sum>n\<in>?C. rated_power s n) + (\<Sum>n\<in>?A. rated_power s n)"
    unfolding C .
  have "power_usage (context' (snd (control_devices clock ?s1 names False)))
        = power_usage (context' ?s1) - (\<Sum>n\<in>?B. rated_power s n)"
    by (simp add: control_devices_power[of clock ?s1 names False] to_change_after_on
          rated_power_control_devices)
  also have "power_usage (context' ?s1) = power_usage (context' s) + (\<Sum>n\<in>?A. rated_power s n)"
    by (simp add: control_devices_power[of clock s names True])
  finally show ?thesis using split by simp
qed

lemma warning_prefix_contains: "\<exists>ps ss. warning_prefix = ps @ ''Warning'' @ ss"
proof -
  have "warning_prefix = ([CHR 0x0A, CHR 0xE2, CHR 0x9A, CHR 0xA0, CHR 0xEF, CHR 0xB8, CHR 0x8F] @ ''  '')
          @ ''Warning'' @ '': Power usage (''"
    by (simp add: warning_prefix_def)
  then show ?thesis by blast
qed

lemma control_loop_filter:
  "(\<And>n. dict_contains (devices s) n = P n) \<Longrightarrow>
   control_loop clock st names (s, r, t) = control_loop clock st (filter P names) (s, r, t)"
proof (induction names arbitrary: s r t)
  case Nil
  then show ?case by simp
next
  case (Cons n rest)
  show ?case
  proof (cases "map_of (devices s) n")
    case None
    then have "\<not> P n" using Cons.prems[of n] by (simp add: dict_contains_def)
    then show ?thesis using None Cons.IH[OF Cons.prems] by simp
  next
    case (Some d)
    then have Pn: "P n" using Cons.prems[of n] by (simp add: dict_contains_def)
    show ?thesis
    proof (cases "state d \<noteq> st")
      case True
      define s1 where "s1 = (if gpio_simulation_mode s then s
                      else s\<lparr>gpio_outputs := gpio_outputs s @ [(pin d, st)]\<rparr>)"
      define s2 where "s2 = s1\<lparr>devices :=
                          AList.update n
                            (d\<lparr>state := st, last_changed := clock (clock_reads s1)\<rparr>)
                            (devices s1),
                        clock_reads := Suc (clock_reads s1)\<rparr>"
      have dom: "\<And>m. dict_contains (devices s2) m = P m"
        using Cons.prems Some by (auto simp: s2_def s1_def dict_contains_def update_conv')
      have "control_loop clock st (n # rest) (s, r, t) = control_loop clock st rest (s2, r @ [replace_underscore n], t + (if st then power_consumption d else - power_consumption d))"
        using Some True by (simp add: s2_def s1_def Let_def)
      moreover have "control_loop clock st (filter P (n # rest)) (s, r, t) = control_loop clock st (filter P rest) (s2, r @ [replace_underscore n], t + (if st then power_consumption d else - power_consumption d))"
        using Some True Pn by (simp add: s2_def s1_def Let_def)
      ultimately show ?thesis using Cons.IH[OF dom] by simp
    next
      case False
      then show ?thesis using Some Pn Cons.IH[OF Cons.prems] by simp
    qed
  qed
qed

section \<open>Secondary indexes and device extraction\<close>

lemma map_of_dd_append:
  "map_of (dd_append dd k v) k' =
     (if k' = k then Some ((case map_of dd k of None \<Rightarrow> [] | Some l \<Rightarrow> l) @ [v])
      else map_of dd k')"
  by (auto simp: dd_append_def dd_getitem_def update_conv' map_add_def split: option.splits)

lemma build_index_snoc:
  "build_index key (ds @ [(n, d)]) = dd_append (build_index key ds) (key d) n"
  by (simp add: build_index_def)

lemma map_of_build_index:
  "map_of (build_index key ds) k =
     (if \<exists>(n, d)\<in>set ds. key d = k
      then Some (map fst (filter (\<lambda>(n, d). key d = k) ds)) else None)"
proof (induction ds rule: rev_induct)
  case Nil
  then show ?case by (simp add: build_index_def)
next
  case (snoc x ds)
  obtain n d where x: "x = (n, d)" by (cases x)
  show ?case
    unfolding x build_index_snoc map_of_dd_append
    using snoc.IH by (auto simp: filter_empty_conv)
qed

lemma dd_getitem_build_index:
  "fst (dd_getitem (build_index key ds) k) = map fst (filter (\<lambda>(n, d). key d = k) ds)"
  by (auto simp: dd_getitem_def map_of_build_index filter_empty_conv split: option.splits)

lemma dd_getitem_present:
  "dict_contains dd k \<Longrightarrow> snd (dd_getitem dd k) = dd"
  by (auto simp: dd_getitem_def dict_contains_def split: option.splits)

lemma any_in_iff:
  "any_in kws t \<longleftrightarrow> (\<exists>kw\<in>set kws. \<exists>ps ss. t = ps @ kw @ ss)"
  by (simp add: any_in_def list_ex_iff py_in_iff)

lemma extract_all:
  assumes "any_in [''all'', ''everything'', ''entire''] t"
  shows "fst (extract_devices_from_text s t) =
           (if py_in ''light'' t then fst (dd_getitem (devices_by_type s) LIGHT)
            else map fst (devices s))"
  using assms by (simp add: extract_devices_from_text_def split: prod.splits)

section \<open>The fallback matcher: stages\<close>

lemma extract_snd:
  "dict_contains (devices_by_type s) LIGHT \<Longrightarrow> snd (extract_devices_from_text s t) = s"
  by (auto simp: extract_devices_from_text_def dd_getitem_def dict_contains_def
           split: option.splits)

lemma match_patterns_snd:
  "dict_contains (devices_by_type s) LIGHT \<Longrightarrow> snd (match_patterns s t c ps) = s"
proof (induction ps)
  case Nil
  then show ?case by simp
next
  case (Cons p ps)
  obtain intent kws where p: "p = (intent, kws)" by (cases p)
  obtain devs s1 where e: "extract_devices_from_text s t = (devs, s1)"
    by (cases "extract_devices_from_text s t")
  have "s1 = s" using extract_snd[OF Cons.prems, of t] e by simp
  then show ?case using Cons e by (simp add: p)
qed

lemma match_rooms_snd:
  "list_all (\<lambda>(keyword, room_id). dict_contains (devices_by_room s) room_id) rks \<Longrightarrow>
   snd (match_rooms s t c rks) = s"
proof (induction rks)
  case Nil
  then show ?case by simp
next
  case (Cons rk rks)
  obtain keyword room_id where rk: "rk = (keyword, room_id)" by (cases rk)
  from Cons.prems obtain l where l: "map_of (devices_by_room s) room_id = Some l"
    by (auto simp: rk dict_contains_def)
  have rest: "snd (match_rooms s t c rks) = s" using Cons by simp
  show ?case
    using l rest
    by (auto simp: rk dd_getitem_def Let_def split: sum.splits)
qed

lemma light_devices_of_registered:
  "(\<And>d. d \<in> set l \<Longrightarrow> map_of devs d \<noteq> None) \<Longrightarrow>
   light_devices_of devs l =
     Inr (filter (\<lambda>d. map_option device_type (map_of devs d) = Some LIGHT) l)"
  by (induction l) (auto split: option.splits)

lemma index_names_registered:
  assumes "map_of (build_index key ds) k = Some l" and "d \<in> set l"
  shows "map_of ds d \<noteq> None"
proof -
  have "l = map fst (filter (\<lambda>(n, d). key d = k) ds)"
    using assms(1) by (auto simp: map_of_build_index split: if_splits)
  then have "d \<in> fst ` set ds" using assms(2) by auto
  then show ?thesis by (simp add: map_of_eq_None_iff)
qed

lemma match_rooms_no_error:
  assumes "list_all (\<lambda>(keyword, room_id). dict_contains (devices_by_room s) room_id) rks"
    and "\<forall>r l d. map_of (devices_by_room s) r = Some l \<longrightarrow> d \<in> set l
           \<longrightarrow> map_of (devices s) d \<noteq> None"
  shows "\<exists>x. fst (match_rooms s t c rks) = Inr x"
  using assms(1)
proof (induction rks)
  case Nil
  then show ?case by simp
next
  case (Cons rk rks)
  obtain keyword room_id where rk: "rk = (keyword, room_id)" by (cases rk)
  from Cons.prems obtain l where l: "map_of (devices_by_room s) room_id = Some l"
    by (auto simp: rk dict_contains_def)
  have reg: "\<And>d. d \<in> set l \<Longrightarrow> map_of (devices s) d \<noteq> None"
    using assms(2) l by blast
  have rest: "\<exists>x. fst (match_rooms s t c rks) = Inr x" using Cons by simp
  show ?case
    using l rest light_devices_of_registered[of l "devices s", OF reg]
    by (auto simp: rk dd_getitem_def Let_def)
qed


lemma map_of_static_list:
  "map_of (map (\<lambda>(n, d). (n, aliases d, device_type d)) ds) n
     = map_option (\<lambda>d. (aliases d, device_type d)) (map_of ds n)"
  by (induction ds) auto

lemma map_of_static_registry:
  "map_of (static_registry s) n
     = map_option (\<lambda>d. (aliases d, device_type d)) (map_of (devices s) n)"
  unfolding static_registry_def by (rule map_of_static_list)

lemma names_static_registry: "map fst (static_registry s) = map fst (devices s)"
  unfolding static_registry_def by (induction "devices s") auto


lemma same_static_names: "same_static s s' \<Longrightarrow> map fst (devices s) = map fst (devices s')"
  using names_static_registry[of s] names_static_registry[of s'] by (simp add: same_static_def)

lemma same_static_type:
  assumes "same_static s s'"
  shows "map_option device_type (map_of (devices s) n)
           = map_option device_type (map_of (devices s') n)"
proof -
  have "map_of (static_registry s) n = map_of (static_registry s') n"
    using assms by (simp add: same_static_def)
  then have e: "map_option (\<lambda>d. (aliases d, device_type d)) (map_of (devices s) n)
           = map_option (\<lambda>d. (aliases d, device_type d)) (map_of (devices s') n)"
    by (simp only: map_of_static_registry)
  show ?thesis
  proof (cases "map_of (devices s) n")
    case None
    then show ?thesis using e by (cases "map_of (devices s') n") auto
  next
    case (Some d)
    then show ?thesis using e by (cases "map_of (devices s') n") auto
  qed
qed

lemma named_devices_static_list:
  "map fst (filter (\<lambda>(n, device). P n (aliases device)) ds)
     = map fst (filter (\<lambda>(n, al, ty). P n al)
                  (map (\<lambda>(n, d). (n, aliases d, device_type d)) ds))"
  by (induction ds) auto

lemma named_devices_static:
  "map fst (filter (\<lambda>(n, device). any_in (replace_underscore n # aliases device) t) (devices s))
     = map fst (filter (\<lambda>(n, al, ty). any_in (replace_underscore n # al) t) (static_registry s))"
  unfolding static_registry_def
  by (rule named_devices_static_list[of "\<lambda>n al. any_in (replace_underscore n # al) t"])

lemma extract_fst_static:
  assumes "same_static s s'"
  shows "fst (extract_devices_from_text s t) = fst (extract_devices_from_text s' t)"
proof -
  have a: "map fst (devices s) = map fst (devices s')" using assms by (rule same_static_names)
  have b: "devices_by_type s = devices_by_type s'" using assms by (simp add: same_static_def)
  have c: "static_registry s = static_registry s'" using assms by (simp add: same_static_def)
  show ?thesis
    unfolding extract_devices_from_text_def named_devices_static a b c
    by (simp add: case_prod_unfold)
qed


lemma match_scene_names:
  "map fst sc = map fst sc' \<Longrightarrow> match_scene sc t = match_scene sc' t"
proof (induction sc arbitrary: sc')
  case Nil
  then show ?case by simp
next
  case (Cons x sc)
  then obtain y sc2 where sc': "sc' = y # sc2" by (cases sc') auto
  obtain n d where x: "x = (n, d)" by (cases x)
  obtain n' d' where y: "y = (n', d')" by (cases y)
  show ?case using Cons by (simp add: sc' x y)
qed

lemma match_patterns_fst_static:
  assumes "same_static s s'" and "dict_contains (devices_by_type s) LIGHT"
  shows "fst (match_patterns s t c ps) = fst (match_patterns s' t c ps)"
proof -
  have l': "dict_contains (devices_by_type s') LIGHT"
    using assms by (simp add: same_static_def)
  obtain devs where e1: "extract_devices_from_text s t = (devs, s)"
    using extract_snd[OF assms(2), of t] by (metis prod.collapse)
  have e2: "extract_devices_from_text s' t = (devs, s')"
    using extract_snd[OF l', of t] extract_fst_static[OF assms(1), of t] e1
    by (metis prod.collapse fst_conv)
  show ?thesis
  proof (induction ps)
    case Nil
    then show ?case by simp
  next
    case (Cons p ps)
    obtain intent kws where p: "p = (intent, kws)" by (cases p)
    show ?case using Cons by (simp add: p e1 e2)
  qed
qed

lemma light_devices_of_static:
  "(\<And>n. map_option device_type (map_of devs n) = map_option device_type (map_of devs' n)) \<Longrightarrow>
   light_devices_of devs l = light_devices_of devs' l"
proof (induction l)
  case Nil
  then show ?case by simp
next
  case (Cons d l)
  have "map_option device_type (map_of devs d) = map_option device_type (map_of devs' d)"
    using Cons.prems by simp
  then show ?case using Cons.IH[OF Cons.prems]
    by (cases "map_of devs d"; cases "map_of devs' d") (auto split: sum.splits)
qed

lemma match_rooms_fst_static:
  assumes "same_static s s'"
    and "list_all (\<lambda>(keyword, room_id). dict_contains (devices_by_room s) room_id) rks"
  shows "fst (match_rooms s t c rks) = fst (match_rooms s' t c rks)"
  using assms(2)
proof (induction rks)
  case Nil
  then show ?case by simp
next
  case (Cons rk rks)
  obtain keyword room_id where rk: "rk = (keyword, room_id)" by (cases rk)
  have br: "devices_by_room s' = devices_by_room s" using assms(1) by (simp add: same_static_def)
  from Cons.prems obtain l where l: "map_of (devices_by_room s) room_id = Some l"
    by (auto simp: rk dict_contains_def)
  have l': "map_of (devices_by_room s') room_id = Some l" using l br by simp
  have ld: "light_devices_of (devices s) l = light_devices_of (devices s') l"
    by (rule light_devices_of_static) (rule same_static_type[OF assms(1)])
  have rest: "fst (match_rooms s t c rks) = fst (match_rooms s' t c rks)" using Cons by simp
  show ?case
    using l l' rest ld
    by (auto simp: rk dd_getitem_def Let_def split: sum.splits)
qed

section \<open>The fallback matcher: shape of the intents\<close>

lemma match_patterns_shape:
  "fst (match_patterns s t c ps) = Some i \<Longrightarrow>
   \<exists>k devs. k \<in> fst ` set ps \<and>
     i = [(''intent'', PStr k), (''devices'', PList (map PStr devs)),
          (''confidence'', PFloat c), (''reasoning'', PStr (''Pattern match for '' @ k))]"
proof (induction ps arbitrary: s)
  case Nil
  then show ?case by simp
next
  case (Cons p ps)
  obtain intent kws where p: "p = (intent, kws)" by (cases p)
  obtain devs s1 where e: "extract_devices_from_text s t = (devs, s1)"
    by (cases "extract_devices_from_text s t")
  show ?case
  proof (cases "any_in kws t \<and> devs \<noteq> []")
    case True
    then have "i = [(''intent'', PStr intent), (''devices'', PList (map PStr devs)),
          (''confidence'', PFloat c), (''reasoning'', PStr (''Pattern match for '' @ intent))]"
      using Cons.prems by (simp add: p e)
    then show ?thesis by (auto simp: p)
  next
    case False
    then have "fst (match_patterns s t c ps) = Some i \<or> fst (match_patterns s1 t c ps) = Some i"
      using Cons.prems by (auto simp: p e split: if_splits)
    then obtain k devs' where "k \<in> fst ` set ps"
        "i = [(''intent'', PStr k), (''devices'', PList (map PStr devs')),
          (''confidence'', PFloat c), (''reasoning'', PStr (''Pattern match for '' @ k))]"
      using Cons.IH by blast
    then show ?thesis by auto
  qed
qed

lemma match_rooms_shape:
  "fst (match_rooms s t c rks) = Inr (Some i) \<Longrightarrow>
   \<exists>k devs r. k \<in> {''turn_on'', ''turn_off''} \<and>
     i = [(''intent'', PStr k), (''devices'', PList (map PStr devs)),
          (''confidence'', PFloat (c - 0.02)),
          (''reasoning'', PStr (''Room-based command for '' @ r))]"
proof (induction rks arbitrary: s)
  case Nil
  then show ?case by simp
next
  case (Cons rk rks)
  obtain keyword room_id where rk: "rk = (keyword, room_id)" by (cases rk)
  obtain l dd where g: "dd_getitem (devices_by_room s) room_id = (l, dd)"
    by (cases "dd_getitem (devices_by_room s) room_id")
  let ?s1 = "s\<lparr>devices_by_room := dd\<rparr>"
  let ?sel = "if py_in ''light'' t then light_devices_of (devices ?s1) l else Inr l"
  show ?case
  proof (cases "py_in keyword t")
    case False
    then show ?thesis using Cons by (simp add: rk)
  next
    case True
    show ?thesis
    proof (cases ?sel)
      case (Inl e)
      then show ?thesis using Cons.prems True g by (simp add: rk Let_def)
    next
      case (Inr devs)
      show ?thesis
      proof (cases "devs = []")
        case True
        then have "fst (match_rooms ?s1 t c rks) = Inr (Some i)"
          using Cons.prems \<open>py_in keyword t\<close> g Inr by (simp add: rk Let_def)
        then show ?thesis using Cons.IH by blast
      next
        case False
        then have "i = [(''intent'', PStr (if any_in turn_on_keywords t then ''turn_on'' else ''turn_off'')),
            (''devices'', PList (map PStr devs)),
            (''confidence'', PFloat (c - 0.02)),
            (''reasoning'', PStr (''Room-based command for '' @ room_id))]"
          using Cons.prems \<open>py_in keyword t\<close> g Inr by (simp add: rk Let_def)
        then show ?thesis by auto
      qed
    qed
  qed
qed


lemma pattern_names: "k \<in> fst ` set patterns \<Longrightarrow> k = ''turn_on'' \<or> k = ''turn_off'' \<or> k = ''toggle''"
  by (auto simp: patterns_def)

lemma scene_intent_confidence:
  "i = [(''intent'', PStr ''activate_scene''), (''scene'', PStr n), (''confidence'', PFloat c),
        (''reasoning'', PStr (''Activating '' @ n @ '' scene''))] \<Longrightarrow>
   c = (if fb then 0.5 else 1.0) \<Longrightarrow>
   map_of i ''confidence'' = Some (PFloat (amended_confidence fb i))"
  by (simp add: amended_confidence_def room_based_def)

lemma pattern_intent_confidence:
  "i = [(''intent'', PStr k), (''devices'', PList (map PStr devs)),
        (''confidence'', PFloat c), (''reasoning'', PStr (''Pattern match for '' @ k))] \<Longrightarrow>
   k = ''turn_on'' \<or> k = ''turn_off'' \<or> k = ''toggle'' \<Longrightarrow>
   c = (if fb then 0.5 else 1.0) \<Longrightarrow>
   map_of i ''confidence'' = Some (PFloat (amended_confidence fb i))"
  by (auto simp: amended_confidence_def room_based_def)

lemma room_intent_confidence:
  "i = [(''intent'', PStr k), (''devices'', PList (map PStr devs)),
        (''confidence'', PFloat (c - 0.02)),
        (''reasoning'', PStr (''Room-based command for '' @ r))] \<Longrightarrow>
   k \<in> {''turn_on'', ''turn_off''} \<Longrightarrow>
   c = (if fb then 0.5 else 1.0) \<Longrightarrow>
   map_of i ''confidence'' = Some (PFloat (amended_confidence fb i))"
  by (auto simp: amended_confidence_def room_based_def startswith_iff)

lemma fast_pattern_match_confidence:
  assumes "fst (fast_pattern_match str_lower s user_input is_fallback) = Inr i"
  shows "map_of i ''confidence'' = Some (PFloat (amended_confidence is_fallback i))"
proof -
  define t where "t = str_lower user_input"
  define c :: real where "c = (if \<not> is_fallback then 1.0 else 0.5)"
  have c: "c = (if is_fallback then 0.5 else 1.0)" by (simp add: c_def)
  show ?thesis
  proof (cases "match_scene (scenes s) t")
    case (Some n)
    then have "i = [(''intent'', PStr ''activate_scene''), (''scene'', PStr n),
        (''confidence'', PFloat c), (''reasoning'', PStr (''Activating '' @ n @ '' scene''))]"
      using assms by (simp add: fast_pattern_match_def t_def c_def)
    then show ?thesis using c by (rule scene_intent_confidence)
  next
    case None
    obtain mp s1 where mp: "match_patterns s t c patterns = (mp, s1)"
      by (cases "match_patterns s t c patterns")
    show ?thesis
    proof (cases mp)
      case (Some j)
      then have ij: "i = j"
        using assms None mp by (simp add: fast_pattern_match_def t_def[symmetric] c_def[symmetric])
      have "fst (match_patterns s t c patterns) = Some i" using mp Some ij by simp
      from match_patterns_shape[OF this] obtain k devs where
        k: "k \<in> fst ` set patterns" and
        i: "i = [(''intent'', PStr k), (''devices'', PList (map PStr devs)),
          (''confidence'', PFloat c), (''reasoning'', PStr (''Pattern match for '' @ k))]"
        by blast
      show ?thesis using i pattern_names[OF k] c by (rule pattern_intent_confidence)
    next
      case mpNone: None
      obtain mr s2 where mr: "match_rooms s1 t c room_keywords = (mr, s2)"
        by (cases "match_rooms s1 t c room_keywords")
      have unf: "fast_pattern_match str_lower s user_input is_fallback =
          (case (mr, s2) of
             (Inl e, s2) \<Rightarrow> (Inl e, s2)
           | (Inr (Some intent), s2) \<Rightarrow> (Inr intent, s2)
           | (Inr None, s2) \<Rightarrow>
               if any_in [''hot'', ''warm'', ''sweating''] t then
                 (Inr [(''intent'', PStr ''set_temperature''),
                       (''value'', PStr ''decrease''),
                       (''confidence'', PFloat 0.8),
                       (''reasoning'', PStr ''User feels hot'')], s2)
               else if any_in [''cold'', ''freezing'', ''chilly''] t then
                 (Inr [(''intent'', PStr ''set_temperature''),
                       (''value'', PStr ''increase''),
                       (''confidence'', PFloat 0.8),
                       (''reasoning'', PStr ''User feels cold'')], s2)
               else if any_in [''status'', ''what'' @ [CHR 0x27] @ ''s on'',
                               ''check'', ''show''] t then
                 (Inr [(''intent'', PStr ''check_status''),
                       (''confidence'', PFloat 0.9),
                       (''reasoning'', PStr ''Status check request'')], s2)
               else
                 (Inr [(''intent'', PStr ''unknown''),
                       (''confidence'', PFloat 0.1),
                       (''reasoning'', PStr ''No pattern matched'')], s2))"
        using None mp mpNone mr
        by (simp add: fast_pattern_match_def t_def[symmetric] c_def[symmetric])
      show ?thesis
      proof (cases mr)
        case (Inl e)
        then show ?thesis using assms unf by simp
      next
        case (Inr x)
        show ?thesis
        proof (cases x)
          case (Some j)
          then have ij: "i = j" using assms unf Inr by simp
          have "fst (match_rooms s1 t c room_keywords) = Inr (Some i)"
            using mr Inr Some ij by simp
          from match_rooms_shape[OF this] obtain k devs r where
            k: "k \<in> {''turn_on'', ''turn_off''}" and
            i: "i = [(''intent'', PStr k), (''devices'', PList (map PStr devs)),
              (''confidence'', PFloat (c - 0.02)),
              (''reasoning'', PStr (''Room-based command for '' @ r))]"
            by blast
          show ?thesis using i k c by (rule room_intent_confidence)
        next
          case xNone: None
          show ?thesis
            using assms unf Inr xNone
            by (auto simp: amended_confidence_def room_based_def split: if_splits)
        qed
      qed
    qed
  qed
qed

section \<open>The fallback matcher on a configured state\<close>

lemma configured_light: "configured s \<Longrightarrow> dict_contains (devices_by_type s) LIGHT"
  by (simp add: configured_def)

lemma configured_rooms:
  "configured s \<Longrightarrow>
   list_all (\<lambda>(keyword, room_id). dict_contains (devices_by_room s) room_id) room_keywords"
  by (simp add: configured_def)

lemma configured_registered:
  assumes "configured s" and "map_of (devices_by_room s) r = Some l" and "d \<in> set l"
  shows "map_of (devices s) d \<noteq> None"
proof -
  have "map_of (build_index room (devices s)) r = Some l"
    using assms(1,2) by (simp add: configured_def indexes_built_def)
  then show ?thesis using assms(3) by (rule index_names_registered)
qed

lemma same_static_configured_light:
  "same_static s s' \<Longrightarrow> dict_contains (devices_by_type s) LIGHT \<Longrightarrow>
   dict_contains (devices_by_type s') LIGHT"
  by (simp add: same_static_def)

lemma same_static_configured_rooms:
  "same_static s s' \<Longrightarrow>
   list_all (\<lambda>(keyword, room_id). dict_contains (devices_by_room s) room_id) rks \<Longrightarrow>
   list_all (\<lambda>(keyword, room_id). dict_contains (devices_by_room s') room_id) rks"
  by (simp add: same_static_def)

text \<open>The matcher as a function of the stage results, when no index entry is missing.\<close>

lemma fast_pattern_match_stages:
  assumes l: "dict_contains (devices_by_type s) LIGHT"
    and r: "list_all (\<lambda>(keyword, room_id). dict_contains (devices_by_room s) room_id) room_keywords"
    and t: "t = str_lower user_input"
    and c: "c = (if \<not> is_fallback then 1.0 else 0.5)"
  shows "fast_pattern_match str_lower s user_input is_fallback =
     (case match_scene (scenes s) t of
        Some scene_name \<Rightarrow>
          (Inr [(''intent'', PStr ''activate_scene''),
                (''scene'', PStr scene_name),
                (''confidence'', PFloat c),
                (''reasoning'', PStr (''Activating '' @ scene_name @ '' scene''))], s)
      | None \<Rightarrow>
          (case fst (match_patterns s t c patterns) of
             Some intent \<Rightarrow> (Inr intent, s)
           | None \<Rightarrow>
               (case fst (match_rooms s t c room_keywords) of
                  Inl e \<Rightarrow> (Inl e, s)
                | Inr (Some intent) \<Rightarrow> (Inr intent, s)
                | Inr None \<Rightarrow>
                    if any_in [''hot'', ''warm'', ''sweating''] t then
                      (Inr [(''intent'', PStr ''set_temperature''),
                            (''value'', PStr ''decrease''),
                            (''confidence'', PFloat 0.8),
                            (''reasoning'', PStr ''User feels hot'')], s)
                    else if any_in [''cold'', ''freezing'', ''chilly''] t then
                      (Inr [(''intent'', PStr ''set_temperature''),
                            (''value'', PStr ''increase''),
                            (''confidence'', PFloat 0.8),
                            (''reasoning'', PStr ''User feels cold'')], s)
                    else if any_in [''status'', ''what'' @ [CHR 0x27] @ ''s on'',
                                    ''check'', ''show''] t then
                      (Inr [(''intent'', PStr ''check_status''),
                            (''confidence'', PFloat 0.9),
                            (''reasoning'', PStr ''Status check request'')], s)
                    else (Inr unknown_intent, s))))"
proof -
  obtain mp where mp: "match_patterns s t c patterns = (mp, s)"
    using match_patterns_snd[OF l, of t c patterns] by (metis prod.collapse)
  obtain mr where mr: "match_rooms s t c room_keywords = (mr, s)"
    using match_rooms_snd[OF r, of t c] by (metis prod.collapse)
  show ?thesis
    unfolding fast_pattern_match_def t[symmetric] c[symmetric] Let_def mp
    by (simp add: mr unknown_intent_def split: option.splits sum.splits)
qed


lemma fast_pattern_match_snd:
  assumes "configured s"
  shows "snd (fast_pattern_match str_lower s user_input is_fallback) = s"
proof -
  define c :: real where "c = (if \<not> is_fallback then 1.0 else 0.5)"
  show ?thesis
    unfolding fast_pattern_match_stages[where str_lower=str_lower and user_input=user_input, OF configured_light[OF assms] configured_rooms[OF assms]
        refl c_def]
    by (simp split: option.splits sum.splits)
qed

lemma fast_pattern_match_no_error:
  assumes "configured s"
  shows "\<exists>i. fst (fast_pattern_match str_lower s user_input is_fallback) = Inr i"
proof -
  define c :: real where "c = (if \<not> is_fallback then 1.0 else 0.5)"
  have reg: "\<forall>r l d. map_of (devices_by_room s) r = Some l \<longrightarrow> d \<in> set l
                 \<longrightarrow> map_of (devices s) d \<noteq> None"
    using configured_registered[OF assms] by blast
  obtain x where x: "fst (match_rooms s (str_lower user_input) c room_keywords) = Inr x"
    using match_rooms_no_error[OF configured_rooms[OF assms] reg] by blast
  show ?thesis
    unfolding fast_pattern_match_stages[where str_lower=str_lower and user_input=user_input, OF configured_light[OF assms] configured_rooms[OF assms]
        refl c_def] x
    by (simp split: option.splits)
qed

lemma fast_pattern_match_static:
  assumes "configured s" and "same_static s s'"
  shows "fst (fast_pattern_match str_lower s' user_input is_fallback)
           = fst (fast_pattern_match str_lower s user_input is_fallback)"
proof -
  define c :: real where "c = (if \<not> is_fallback then 1.0 else 0.5)"
  define t where "t = str_lower user_input"
  have l: "dict_contains (devices_by_type s) LIGHT" using assms(1) by (rule configured_light)
  have r: "list_all (\<lambda>(keyword, room_id). dict_contains (devices_by_room s) room_id) room_keywords"
    using assms(1) by (rule configured_rooms)
  have l': "dict_contains (devices_by_type s') LIGHT"
    using assms(2) l by (rule same_static_configured_light)
  have r': "list_all (\<lambda>(keyword, room_id). dict_contains (devices_by_room s') room_id) room_keywords"
    using assms(2) r by (rule same_static_configured_rooms)
  have sc: "match_scene (scenes s') t = match_scene (scenes s) t"
    using assms(2) by (intro match_scene_names) (simp add: same_static_def)
  have mp: "fst (match_patterns s' t c patterns) = fst (match_patterns s t c patterns)"
    using match_patterns_fst_static[OF assms(2) l] by simp
  have mr: "fst (match_rooms s' t c room_keywords) = fst (match_rooms s t c room_keywords)"
    using match_rooms_fst_static[OF assms(2) r] by simp
  show ?thesis
    unfolding fast_pattern_match_stages[where str_lower=str_lower and user_input=user_input, OF l r t_def c_def]
      fast_pattern_match_stages[where str_lower=str_lower and user_input=user_input, OF l' r' t_def c_def] sc mp mr
    by (simp split: option.splits sum.splits)
qed

lemma match_patterns_none:
  assumes "dict_contains (devices_by_type s) LIGHT"
    and "list_ex (\<lambda>(intent, keywords). any_in keywords t) ps
           \<longrightarrow> fst (extract_devices_from_text s t) = []"
  shows "fst (match_patterns s t c ps) = None"
  using assms(2)
proof (induction ps)
  case Nil
  then show ?case by simp
next
  case (Cons p ps)
  obtain intent kws where p: "p = (intent, kws)" by (cases p)
  obtain devs where e: "extract_devices_from_text s t = (devs, s)"
    using extract_snd[OF assms(1), of t] by (metis prod.collapse)
  show ?case using Cons e by (auto simp: p)
qed

lemma match_rooms_none:
  assumes "list_all (\<lambda>(keyword, room_id). dict_contains (devices_by_room s) room_id) rks"
    and "list_all (\<lambda>(keyword, room_id). py_in keyword t \<longrightarrow> room_selection s t room_id = Inr []) rks"
  shows "fst (match_rooms s t c rks) = Inr None"
  using assms
proof (induction rks)
  case Nil
  then show ?case by simp
next
  case (Cons rk rks)
  obtain keyword room_id where rk: "rk = (keyword, room_id)" by (cases rk)
  from Cons.prems(1) obtain l where l: "map_of (devices_by_room s) room_id = Some l"
    by (auto simp: rk dict_contains_def)
  have rest: "fst (match_rooms s t c rks) = Inr None" using Cons by simp
  have sel: "py_in keyword t \<Longrightarrow>
               (if py_in ''light'' t then light_devices_of (devices s) l else Inr l) = Inr []"
    using Cons.prems(2) l by (simp add: rk room_selection_def dd_getitem_def)
  show ?case
  proof (cases "py_in keyword t")
    case True
    show ?thesis using True sel[OF True] l rest
      by (cases "py_in ''light'' t") (auto simp: rk dd_getitem_def Let_def)
  next
    case False
    then show ?thesis using rest by (simp add: rk)
  qed
qed

lemma fast_pattern_match_unknown:
  assumes "configured s" and "nothing_matches s (str_lower user_input)"
  shows "fst (fast_pattern_match str_lower s user_input is_fallback) = Inr unknown_intent"
proof -
  define c :: real where "c = (if \<not> is_fallback then 1.0 else 0.5)"
  define t where "t = str_lower user_input"
  have n: "nothing_matches s t" using assms(2) by (simp add: t_def)
  have l: "dict_contains (devices_by_type s) LIGHT" using assms(1) by (rule configured_light)
  have r: "list_all (\<lambda>(keyword, room_id). dict_contains (devices_by_room s) room_id) room_keywords"
    using assms(1) by (rule configured_rooms)
  have sc: "match_scene (scenes s) t = None" using n by (simp add: nothing_matches_def)
  have mp: "fst (match_patterns s t c patterns) = None"
    using n by (intro match_patterns_none[OF l]) (simp add: nothing_matches_def)
  have mr: "fst (match_rooms s t c room_keywords) = Inr None"
    using n by (intro match_rooms_none[OF r]) (simp add: nothing_matches_def)
  show ?thesis
    unfolding fast_pattern_match_stages[where str_lower=str_lower and user_input=user_input, OF l r t_def c_def] sc mp mr
    using n by (simp add: nothing_matches_def)
qed

section \<open>Scenes and the static part of the registry\<close>

lemma build_index_keys:
  "build_index key ds
     = foldl (\<lambda>dd (n, k). dd_append dd k n) [] (map (\<lambda>(n, d). (n, key d)) ds)"
  by (simp add: build_index_def foldl_map case_prod_unfold)

lemma update_keeps_key:
  "map_of devs n = Some d \<Longrightarrow> f d' = f d \<Longrightarrow>
   map (\<lambda>(n, d). (n, f d)) (AList.update n d' devs) = map (\<lambda>(n, d). (n, f d)) devs"
  by (induction devs) (auto split: if_splits)

lemma flip_device_keys:
  assumes "map_of (devices s) n = Some d"
    and "\<And>st x. f (d\<lparr>state := st, last_changed := x\<rparr>) = f d"
  shows "map (\<lambda>(n, d). (n, f d)) (devices (flip_device clock st n d s))
           = map (\<lambda>(n, d). (n, f d)) (devices s)"
  using update_keeps_key[OF assms(1), of f "d\<lparr>state := st, last_changed := clock (clock_reads s)\<rparr>"]
        assms(2)
  by (simp add: flip_device_def Let_def)

lemma flip_device_indexes:
  "devices_by_room (flip_device clock st n d s) = devices_by_room s"
  "devices_by_type (flip_device clock st n d s) = devices_by_type s"
  "scenes (flip_device clock st n d s) = scenes s"
  by (simp_all add: flip_device_def Let_def)

lemma control_loop_static:
  "control_loop clock st names (s, r, t) = (s', r', t') \<Longrightarrow>
   map (\<lambda>(n, d). (n, room d)) (devices s') = map (\<lambda>(n, d). (n, room d)) (devices s)
   \<and> map (\<lambda>(n, d). (n, device_type d)) (devices s')
       = map (\<lambda>(n, d). (n, device_type d)) (devices s)
   \<and> devices_by_room s' = devices_by_room s
   \<and> devices_by_type s' = devices_by_type s
   \<and> scenes s' = scenes s"
proof (induction names arbitrary: s r t)
  case Nil
  then show ?case by simp
next
  case (Cons n rest)
  show ?case
  proof (cases "map_of (devices s) n")
    case None
    then show ?thesis using Cons by simp
  next
    case (Some d)
    show ?thesis
    proof (cases "state d = st")
      case True
      then show ?thesis using Cons Some by simp
    next
      case False
      let ?s2 = "flip_device clock st n d s"
      have step: "control_loop clock st rest (?s2, r @ [replace_underscore n],
               t + (if st then power_consumption d else - power_consumption d)) = (s', r', t')"
        using Cons.prems by (simp only: control_loop_flip[OF Some False])
      have k1: "map (\<lambda>(n, d). (n, room d)) (devices ?s2) = map (\<lambda>(n, d). (n, room d)) (devices s)"
        by (rule flip_device_keys[OF Some]) simp
      have k2: "map (\<lambda>(n, d). (n, device_type d)) (devices ?s2)
                  = map (\<lambda>(n, d). (n, device_type d)) (devices s)"
        by (rule flip_device_keys[OF Some]) simp
      from Cons.IH[OF step] show ?thesis by (simp add: k1 k2 flip_device_indexes)
    qed
  qed
qed

lemma control_devices_static:
  "map (\<lambda>(n, d). (n, room d)) (devices (snd (control_devices clock s names st)))
     = map (\<lambda>(n, d). (n, room d)) (devices s)"
  "map (\<lambda>(n, d). (n, device_type d)) (devices (snd (control_devices clock s names st)))
     = map (\<lambda>(n, d). (n, device_type d)) (devices s)"
  "devices_by_room (snd (control_devices clock s names st)) = devices_by_room s"
  "devices_by_type (snd (control_devices clock s names st)) = devices_by_type s"
  "scenes (snd (control_devices clock s names st)) = scenes s"
proof -
  obtain s1 r1 t1 where loop: "control_loop clock st names (s, [], 0) = (s1, r1, t1)"
    by (cases "control_loop clock st names (s, [], 0)") auto
  have e: "devices (snd (control_devices clock s names st)) = devices s1"
    "devices_by_room (snd (control_devices clock s names st)) = devices_by_room s1"
    "devices_by_type (snd (control_devices clock s names st)) = devices_by_type s1"
    "scenes (snd (control_devices clock s names st)) = scenes s1"
    using loop by (simp_all add: control_devices_def Let_def)
  note st = control_loop_static[OF loop]
  show "map (\<lambda>(n, d). (n, room d)) (devices (snd (control_devices clock s names st)))
     = map (\<lambda>(n, d). (n, room d)) (devices s)" using st e by simp
  show "map (\<lambda>(n, d). (n, device_type d)) (devices (snd (control_devices clock s names st)))
     = map (\<lambda>(n, d). (n, device_type d)) (devices s)" using st e by simp
  show "devices_by_room (snd (control_devices clock s names st)) = devices_by_room s"
    using st e by simp
  show "devices_by_type (snd (control_devices clock s names st)) = devices_by_type s"
    using st e by simp
  show "scenes (snd (control_devices clock s names st)) = scenes s" using st e by simp
qed

lemma control_devices_configured:
  assumes "configured s"
  shows "configured (snd (control_devices clock s names st))"
proof -
  let ?s' = "snd (control_devices clock s names st)"
  have r: "build_index room (devices ?s') = build_index room (devices s)"
    unfolding build_index_keys by (simp add: control_devices_static)
  have t: "build_index device_type (devices ?s') = build_index device_type (devices s)"
    unfolding build_index_keys by (simp add: control_devices_static)
  have br: "devices_by_room ?s' = devices_by_room s" by (rule control_devices_static)
  have bt: "devices_by_type ?s' = devices_by_type s" by (rule control_devices_static)
  show ?thesis
    unfolding configured_def indexes_built_def r t br bt
    using assms unfolding configured_def indexes_built_def .
qed

lemma control_devices_unregistered_name:
  assumes "map_of (devices s) n = None"
  shows "snd (control_devices clock s [n] st) = s"
proof -
  have "to_change s [n] st = []" using assms by (simp add: to_change_def)
  then have "control_loop clock st [n] (s, [], 0) = (s, [], 0)" by (rule control_loop_no_change)
  then show ?thesis by (simp add: control_devices_def)
qed

lemma configured_lights:
  assumes "configured s"
  shows "dd_getitem (devices_by_type s) LIGHT = (lights_of s, devices_by_type s)"
proof -
  have a: "fst (dd_getitem (devices_by_type s) LIGHT) = lights_of s"
    using assms by (simp add: configured_def indexes_built_def dd_getitem_build_index lights_of_def)
  have b: "snd (dd_getitem (devices_by_type s) LIGHT) = devices_by_type s"
    using assms by (intro dd_getitem_present) (simp add: configured_def)
  show ?thesis using a b by (metis prod.collapse)
qed

lemma apply_scene_pairs:
  "configured s \<Longrightarrow> apply_scene clock pairs s = apply_pairs clock pairs s"
proof (induction pairs arbitrary: s)
  case Nil
  then show ?case by simp
next
  case (Cons p pairs)
  obtain device_name desired_state where p: "p = (device_name, desired_state)" by (cases p)
  show ?case
  proof (cases "device_name = ''all_lights''")
    case True
    have same: "s\<lparr>devices_by_type := devices_by_type s\<rparr> = s" by simp
    have c: "configured (snd (control_devices clock s (lights_of s) desired_state))"
      using Cons.prems by (rule control_devices_configured)
    show ?thesis
      unfolding p using True configured_lights[OF Cons.prems] Cons.IH[OF c]
      by (simp add: expand_group_def)
  next
    case False
    show ?thesis
    proof (cases "map_of (devices s) device_name")
      case None
      then show ?thesis
        unfolding p using False Cons.IH[OF Cons.prems]
        by (simp add: expand_group_def dict_contains_def control_devices_unregistered_name)
    next
      case (Some d)
      have c: "configured (snd (control_devices clock s [device_name] desired_state))"
        using Cons.prems by (rule control_devices_configured)
      show ?thesis
        unfolding p using False Some Cons.IH[OF c]
        by (simp add: expand_group_def dict_contains_def)
    qed
  qed
qed

lemma join_comma_lists:
  "n \<in> set xs \<Longrightarrow> \<exists>ps ss. join_comma xs = ps @ n @ ss"
proof (induction xs rule: join_comma.induct)
  case 1
  then show ?case by simp
next
  case (2 x)
  then have "join_comma [x] = [] @ n @ []" by simp
  then show ?case by blast
next
  case (3 x y ys)
  show ?case
  proof (cases "n = x")
    case True
    then have "join_comma (x # y # ys) = [] @ n @ ('', '' @ join_comma (y # ys))" by simp
    then show ?thesis by blast
  next
    case False
    then obtain ps ss where "join_comma (y # ys) = ps @ n @ ss" using 3 by auto
    then have "join_comma (x # y # ys) = (x @ '', '' @ ps) @ n @ ss" by simp
    then show ?thesis by blast
  qed
qed

section \<open>The response cache\<close>












section \<open>Power accounting across operations\<close>

lemma control_devices_phases:
  "control_devices clock s device_names st =
     (case control_loop clock st device_names (s, [], 0) of
        (s1, responses, total_power_change) \<Rightarrow> control_commit st s1 responses total_power_change)"
  by (simp add: control_devices_def control_commit_def split: prod.splits)

lemma on_power_update:
  "distinct (map fst ds) \<Longrightarrow> map_of ds n = Some d \<Longrightarrow>
   on_power (AList.update n d' ds)
     = on_power ds - (if state d then power_consumption d else 0)
         + (if state d' then power_consumption d' else 0)"
proof (induction ds)
  case Nil
  then show ?case by simp
next
  case (Cons x ds)
  obtain m e where x: "x = (m, e)" by (cases x)
  show ?case
  proof (cases "m = n")
    case True
    then show ?thesis using Cons.prems by (simp add: x on_power_def)
  next
    case False
    then have "on_power (AList.update n d' ds)
       = on_power ds - (if state d then power_consumption d else 0)
         + (if state d' then power_consumption d' else 0)"
      using Cons by (simp add: x)
    then show ?thesis using False by (simp add: x on_power_def)
  qed
qed

lemma flip_device_on_power:
  assumes "distinct (map fst (devices s))" and "map_of (devices s) n = Some d" and "state d \<noteq> st"
  shows "on_power (devices (flip_device clock st n d s))
           = on_power (devices s) + (if st then power_consumption d else - power_consumption d)"
    and "distinct (map fst (devices (flip_device clock st n d s)))"
proof -
  have dv: "devices (flip_device clock st n d s)
          = AList.update n (d\<lparr>state := st, last_changed := clock (clock_reads s)\<rparr>) (devices s)"
    by (simp add: flip_device_def Let_def)
  show "on_power (devices (flip_device clock st n d s))
           = on_power (devices s) + (if st then power_consumption d else - power_consumption d)"
    unfolding dv on_power_update[OF assms(1,2)] using assms(3) by auto
  show "distinct (map fst (devices (flip_device clock st n d s)))"
    unfolding dv using assms(1) by (rule distinct_update)
qed

lemma control_loop_on_power:
  "control_loop clock st names (s, r, t) = (s', r', t') \<Longrightarrow>
   distinct (map fst (devices s)) \<Longrightarrow>
   distinct (map fst (devices s')) \<and> on_power (devices s') - t' = on_power (devices s) - t"
proof (induction names arbitrary: s r t)
  case Nil
  then show ?case by simp
next
  case (Cons n rest)
  show ?case
  proof (cases "map_of (devices s) n")
    case None
    then show ?thesis using Cons by simp
  next
    case (Some d)
    show ?thesis
    proof (cases "state d = st")
      case True
      then show ?thesis using Cons Some by simp
    next
      case False
      let ?s2 = "flip_device clock st n d s"
      have step: "control_loop clock st rest (?s2, r @ [replace_underscore n],
               t + (if st then power_consumption d else - power_consumption d)) = (s', r', t')"
        using Cons.prems(1) by (simp only: control_loop_flip[OF Some False])
      note f = flip_device_on_power[OF Cons.prems(2) Some False, of clock]
      from Cons.IH[OF step f(2)] show ?thesis using f(1) by simp
    qed
  qed
qed

lemma control_devices_consistent:
  assumes "distinct (map fst (devices s))" and "power_consistent s"
  shows "distinct (map fst (devices (snd (control_devices clock s names st))))
       \<and> power_consistent (snd (control_devices clock s names st))"
proof -
  obtain s1 r1 t1 where loop: "control_loop clock st names (s, [], 0) = (s1, r1, t1)"
    by (cases "control_loop clock st names (s, [], 0)") auto
  have inv: "distinct (map fst (devices s1))" "on_power (devices s1) - t1 = on_power (devices s)"
    using control_loop_on_power[OF loop assms(1)] by simp_all
  have fr: "context' s1 = context' s" using control_loop_frame[OF loop] by simp
  have r1: "r1 = [] \<longleftrightarrow> to_change s names st = []"
    using control_loop_responses[OF loop] by simp
  have t1: "t1 = (if st then 1 else -1) * (\<Sum>n\<in>set (to_change s names st). rated_power s n)"
    using control_loop_total[OF loop] by simp
  show ?thesis
  proof (cases "r1 = []")
    case True
    then have "t1 = 0" using r1 t1 by simp
    then show ?thesis using True loop inv fr assms(2)
      by (simp add: control_devices_def power_consistent_def)
  next
    case False
    then show ?thesis using loop inv fr assms(2)
      by (simp add: control_devices_def Let_def power_consistent_def)
  qed
qed

lemma refresh_power_consistent:
  "power_consistent (refresh_power s)"
  "devices (refresh_power s) = devices s"
  by (simp_all add: power_consistent_def refresh_power_def)

lemma temperature_regulation_consistent:
  assumes "distinct (map fst (devices s))" and "power_consistent s"
  shows "distinct (map fst (devices (snd (temperature_regulation clock s direction))))
       \<and> power_consistent (snd (temperature_regulation clock s direction))"
proof -
  have step: "\<And>s names st. distinct (map fst (devices s)) \<and> power_consistent s \<Longrightarrow>
      distinct (map fst (devices (snd (control_devices clock s names st))))
       \<and> power_consistent (snd (control_devices clock s names st))"
    using control_devices_consistent by blast
  show ?thesis
    unfolding temperature_regulation_def Let_def
    using assms by (auto intro!: step[THEN conjunct1] step[THEN conjunct2] step)
qed

lemma context_updater_iteration_consistent:
  assumes "distinct (map fst (devices s))"
  shows "distinct (map fst (devices (context_updater_iteration clock hour weekday s)))
       \<and> power_consistent (context_updater_iteration clock hour weekday s)"
proof -
  define s1 where "s1 = s\<lparr>context' := (context' s)
                   \<lparr>time_of_day := get_time_context hour, day_of_week := weekday\<rparr>\<rparr>"
  define s2 where "s2 = refresh_power s1"
  have d2: "distinct (map fst (devices s2))" using assms by (simp add: s2_def s1_def refresh_power_def)
  have c2: "power_consistent s2" by (simp add: s2_def refresh_power_consistent)
  note tr = temperature_regulation_consistent[OF d2 c2, of clock "''cool''"]
  show ?thesis
    unfolding context_updater_iteration_def s1_def[symmetric] Let_def s2_def[symmetric]
    using d2 c2 tr by (simp add: power_consistent_def)
qed

lemma run_sequentially_consistent:
  "distinct (map fst (devices s)) \<Longrightarrow> power_consistent s \<Longrightarrow>
   distinct (map fst (devices (run_sequentially clock ops s)))
     \<and> power_consistent (run_sequentially clock ops s)"
proof (induction ops arbitrary: s)
  case Nil
  then show ?case by (simp add: run_sequentially_def)
next
  case (Cons op ops)
  have "distinct (map fst (devices (run_operation clock s op)))
          \<and> power_consistent (run_operation clock s op)"
  proof (cases op)
    case (SetDevices names st)
    then show ?thesis using control_devices_consistent[OF Cons.prems] by simp
  next
    case (ContextRefresh hour weekday)
    then show ?thesis using context_updater_iteration_consistent[OF Cons.prems(1)] by simp
  qed
  then have "distinct (map fst (devices (run_sequentially clock ops (run_operation clock s op))))
     \<and> power_consistent (run_sequentially clock ops (run_operation clock s op))"
    using Cons.IH by blast
  then show ?case by (simp add: run_sequentially_def)
qed

lemma lost_update_eval:
  "power_usage (context' (fst after_loop)) = 0"
  "on_power (devices (fst after_loop)) = 80"
  "power_usage (context' after_refresh) = 80"
  "power_usage (context' after_commit) = 160"
  "on_power (devices after_commit) = 80"
  by code_simp+

lemma control_devices_distinct:
  assumes "distinct (map fst (devices s))"
  shows "distinct (map fst (devices (snd (control_devices clock s names st))))"
proof -
  obtain s1 r1 t1 where loop: "control_loop clock st names (s, [], 0) = (s1, r1, t1)"
    by (cases "control_loop clock st names (s, [], 0)") auto
  have "devices (snd (control_devices clock s names st)) = devices s1"
    using loop by (simp add: control_devices_def Let_def)
  then show ?thesis using control_loop_on_power[OF loop assms] by simp
qed

lemma temperature_regulation_distinct:
  assumes "distinct (map fst (devices s))"
  shows "distinct (map fst (devices (snd (temperature_regulation clock s direction))))"
  unfolding temperature_regulation_def Let_def
  using assms by (auto intro!: control_devices_distinct)

lemma run_operation_distinct:
  assumes "distinct (map fst (devices s))"
  shows "distinct (map fst (devices (run_operation clock s op)))"
proof (cases op)
  case (SetDevices names st)
  then show ?thesis using control_devices_distinct[OF assms] by simp
next
  case (ContextRefresh hour weekday)
  then show ?thesis using context_updater_iteration_consistent[OF assms] by simp
qed

lemma run_sequentially_distinct:
  "distinct (map fst (devices s)) \<Longrightarrow>
   distinct (map fst (devices (run_sequentially clock ops s)))"
proof (induction ops arbitrary: s)
  case Nil
  then show ?case by (simp add: run_sequentially_def)
next
  case (Cons op ops)
  have "distinct (map fst (devices (run_sequentially clock ops (run_operation clock s op))))"
    using Cons.IH run_operation_distinct[OF Cons.prems] by blast
  then show ?case by (simp add: run_sequentially_def)
qed

lemma run_sequentially_refresh_last:
  assumes "distinct (map fst (devices s))"
  shows "power_consistent (run_sequentially clock (ops @ [ContextRefresh hour weekday]) s)"
proof -
  have "run_sequentially clock (ops @ [ContextRefresh hour weekday]) s
          = context_updater_iteration clock hour weekday (run_sequentially clock ops s)"
    by (simp add: run_sequentially_def)
  then show ?thesis
    using context_updater_iteration_consistent[OF run_sequentially_distinct[OF assms]] by simp
qed

lemma distinct_assistant0: "distinct (map fst (devices assistant0))"
  by code_simp

lemma power_consistent_assistant0: "power_consistent assistant0"
  by code_simp

section \<open>Concrete evaluations\<close>

lemma configured_assistant0: "configured assistant0"
  by code_simp

lemma same_static_everything_on: "same_static assistant0 everything_on"
  by code_simp

lemma nothing_matches_hello: "nothing_matches assistant0 (ascii_lower ''Hello there'')"
  by code_simp

lemma status_eval: "fst (fast_pattern_match ascii_lower assistant0 ''status'' False) = Inr status_intent"
  by code_simp

lemma kitchen_eval:
  "fst (fast_pattern_match ascii_lower assistant0 ''the kitchen is dark'' True) = Inr kitchen_room_intent"
  by code_simp

lemma configured_bedroom_light_on: "configured bedroom_light_on"
  unfolding bedroom_light_on_def using configured_assistant0 by (rule control_devices_configured)

lemma scenes_bedroom_light_on: "scenes bedroom_light_on = init_scenes"
  unfolding bedroom_light_on_def
  by (simp add: control_devices_static assistant0_def init_assistant_def)

section \<open>Device controller: claims\<close>

text \<open>
  Claim C7.  Names that are not registered are skipped without an error, and the rest of
  the batch is applied: a call of \<^verbatim>\<open>_control_devices\<close> returns the same report and leaves
  the same state as the call on the batch with the unknown names removed; afterwards every
  registered device of the batch is in the requested state and the unknown names are
  still unregistered; and the change of \<^verbatim>\<open>power_usage\<close> is the sum of the rated draws of
  the registered devices that changed, with nothing for an unknown name.
\<close>

theorem control_devices_skips_unknown:
  "control_devices clock s device_names st
     = control_devices clock s (filter (dict_contains (devices s)) device_names) st
   \<and> (\<forall>n\<in>set device_names. \<forall>d. map_of (devices s) n = Some d \<longrightarrow>
         (\<exists>d'. map_of (devices (snd (control_devices clock s device_names st))) n = Some d'
               \<and> state d' = st))
   \<and> (\<forall>n. map_of (devices s) n = None \<longrightarrow>
         map_of (devices (snd (control_devices clock s device_names st))) n = None)
   \<and> power_usage (context' (snd (control_devices clock s device_names st)))
       = power_usage (context' s)
           + (if st then 1 else -1)
               * (\<Sum>n\<in>set (to_change s device_names st). rated_power s n)"
proof (intro conjI ballI allI impI)
  show "control_devices clock s device_names st
     = control_devices clock s (filter (dict_contains (devices s)) device_names) st"
    unfolding control_devices_def
    using control_loop_filter[of s "dict_contains (devices s)" clock st device_names "[]" 0]
    by simp
next
  fix n d assume "n \<in> set device_names" and "map_of (devices s) n = Some d"
  then show "\<exists>d'. map_of (devices (snd (control_devices clock s device_names st))) n = Some d'
               \<and> state d' = st"
    using control_devices_devices[of s n d clock device_names st] by auto
next
  fix n assume "map_of (devices s) n = None"
  then show "map_of (devices (snd (control_devices clock s device_names st))) n = None"
    by (rule control_devices_unregistered)
next
  show "power_usage (context' (snd (control_devices clock s device_names st)))
       = power_usage (context' s)
           + (if st then 1 else -1)
               * (\<Sum>n\<in>set (to_change s device_names st). rated_power s n)"
    by (rule control_devices_power)
qed

theorem control_devices_skips_unknown_witness:
  "control_devices id assistant0 [''ghost'', ''kitchen_light'', ''nope''] True
     = control_devices id assistant0 [''kitchen_light''] True
   \<and> fst (control_devices id assistant0 [''ghost'', ''kitchen_light'', ''nope''] True)
     = ''Turned on: kitchen light''
   \<and> map_option state
        (map_of (devices (snd (control_devices id assistant0
                                 [''ghost'', ''kitchen_light'', ''nope''] True)))
           ''kitchen_light'') = Some True
   \<and> map_of (devices (snd (control_devices id assistant0
                              [''ghost'', ''kitchen_light'', ''nope''] True))) ''ghost'' = None
   \<and> power_usage (context' (snd (control_devices id assistant0
                                    [''ghost'', ''kitchen_light'', ''nope''] True))) = 80"
proof -
  let ?batch = "[''ghost'', ''kitchen_light'', ''nope'']"
  let ?r = "control_devices id assistant0 ?batch True"
  have f: "filter (dict_contains (devices assistant0)) ?batch = [''kitchen_light'']"
    by code_simp
  have rep: "fst (control_devices id assistant0 [''kitchen_light''] True)
               = ''Turned on: kitchen light''"
    by code_simp
  have pw: "power_usage (context' (snd (control_devices id assistant0 [''kitchen_light''] True)))
              = 80"
    by code_simp
  have d: "map_of (devices assistant0) ''kitchen_light'' \<noteq> None" by code_simp
  have g: "map_of (devices assistant0) ''ghost'' = None" by code_simp
  have k: "''kitchen_light'' \<in> set ?batch" by simp
  note t = control_devices_skips_unknown[of id assistant0 ?batch True]
  have eq: "?r = control_devices id assistant0 [''kitchen_light''] True"
    using t[THEN conjunct1] unfolding f .
  have "\<forall>n\<in>set ?batch. \<forall>d. map_of (devices assistant0) n = Some d \<longrightarrow>
          (\<exists>d'. map_of (devices (snd ?r)) n = Some d' \<and> state d' = True)"
    using t[THEN conjunct2, THEN conjunct1] .
  then have "\<exists>d'. map_of (devices (snd ?r)) ''kitchen_light'' = Some d' \<and> state d' = True"
    using k d by blast
  then have on: "map_option state (map_of (devices (snd ?r)) ''kitchen_light'') = Some True"
    by auto
  have "\<forall>n. map_of (devices assistant0) n = None \<longrightarrow> map_of (devices (snd ?r)) n = None"
    using t[THEN conjunct2, THEN conjunct2, THEN conjunct1] .
  then have un: "map_of (devices (snd ?r)) ''ghost'' = None" using g by blast
  have rep': "fst ?r = ''Turned on: kitchen light''" unfolding eq by (rule rep)
  have pw': "power_usage (context' (snd ?r)) = 80" unfolding eq by (rule pw)
  show ?thesis by (intro conjI eq rep' on un pw')
qed

text \<open>
  Claim C9.  When every name of the batch is unknown or already in the desired state,
  \<^verbatim>\<open>_control_devices\<close> returns exactly \<^verbatim>\<open>No devices were changed.\<close> and the whole state
  (registry, timestamps, actuator calls, context) is unchanged; no warning is added even
  when the usage is above the limit already.
\<close>

theorem control_devices_nothing_to_do:
  assumes "\<forall>n\<in>set device_names.
             case map_of (devices s) n of None \<Rightarrow> True | Some d \<Rightarrow> state d = st"
  shows "control_devices clock s device_names st = (''No devices were changed.'', s)"
proof -
  have "to_change s device_names st = []"
    using assms by (auto simp: to_change_def filter_empty_conv split: option.splits)
  then have "control_loop clock st device_names (s, [], 0) = (s, [], 0)"
    by (rule control_loop_no_change)
  then show ?thesis by (simp add: control_devices_def)
qed

theorem control_devices_nothing_to_do_witness:
  "power_limit (thresholds everything_on) < power_usage (context' everything_on)
   \<and> control_devices id everything_on [''ghost'', ''bedroom_ac''] True
       = (''No devices were changed.'', everything_on)"
proof -
  have h: "\<forall>n\<in>set [''ghost'', ''bedroom_ac''].
             case map_of (devices everything_on) n of None \<Rightarrow> True | Some d \<Rightarrow> state d = True"
    by code_simp
  have p: "power_limit (thresholds everything_on) < power_usage (context' everything_on)"
    by code_simp
  show ?thesis using control_devices_nothing_to_do[OF h] p by simp
qed

text \<open>
  Claim C8.  When a call of \<^verbatim>\<open>_control_devices\<close> changes at least one device and the
  updated \<^verbatim>\<open>power_usage\<close> exceeds the limit, the report contains the word
  \<^verbatim>\<open>Warning\<close>, and every registered device of the batch is in the requested state
  afterwards: the limit blocks nothing.
\<close>

theorem power_limit_warning_is_advisory:
  assumes call: "control_devices clock s device_names st = (report, s')"
    and changed: "to_change s device_names st \<noteq> []"
    and over: "power_usage (context' s') > power_limit (thresholds s')"
  shows "py_in ''Warning'' report
         \<and> (\<forall>n\<in>set device_names. \<forall>d. map_of (devices s) n = Some d \<longrightarrow>
               (\<exists>d'. map_of (devices s') n = Some d' \<and> state d' = st))"
proof
  obtain s1 r1 t1 where loop: "control_loop clock st device_names (s, [], 0) = (s1, r1, t1)"
    by (cases "control_loop clock st device_names (s, [], 0)") auto
  have r1: "r1 \<noteq> []" using control_loop_responses[OF loop] changed by simp
  obtain ps ss where w: "warning_prefix = ps @ ''Warning'' @ ss"
    using warning_prefix_contains by blast
  define a where "a = ''Turned '' @ (if st then ''on'' else ''off'') @ '': '' @ join_comma r1
      @ (if \<bar>t1\<bar> > 100 then '' (Power change: '' @ fmt_plus_0f t1 @ ''W)'' else [])"
  define b where "b = fmt_0f (power_usage (context' s')) @ ''W) exceeds limit!''"
  have "report = a @ warning_prefix @ b"
    using call loop r1 over unfolding a_def b_def
    by (auto simp: control_devices_def Let_def split: if_splits)
  then have "report = (a @ ps) @ ''Warning'' @ (ss @ b)" using w by simp
  then show "py_in ''Warning'' report" unfolding py_in_iff by blast
next
  have s': "s' = snd (control_devices clock s device_names st)" using call by simp
  show "\<forall>n\<in>set device_names. \<forall>d. map_of (devices s) n = Some d \<longrightarrow>
               (\<exists>d'. map_of (devices s') n = Some d' \<and> state d' = st)"
  proof (intro ballI allI impI)
    fix n d assume n: "n \<in> set device_names" and d: "map_of (devices s) n = Some d"
    from control_devices_devices[OF d, of clock device_names st] n
    show "\<exists>d'. map_of (devices s') n = Some d' \<and> state d' = st"
      unfolding s' by auto
  qed
qed

theorem power_limit_warning_is_advisory_witness:
  "to_change all_but_garden_on [''garden_light''] True \<noteq> []
   \<and> power_limit (thresholds (snd (control_devices id all_but_garden_on [''garden_light''] True)))
       < power_usage (context' (snd (control_devices id all_but_garden_on [''garden_light''] True)))
   \<and> py_in ''Warning'' (fst (control_devices id all_but_garden_on [''garden_light''] True))
   \<and> map_option state
        (map_of (devices (snd (control_devices id all_but_garden_on [''garden_light''] True)))
           ''garden_light'') = Some True"
proof -
  let ?r = "control_devices id all_but_garden_on [''garden_light''] True"
  have c: "?r = (fst ?r, snd ?r)" by simp
  have h1: "to_change all_but_garden_on [''garden_light''] True \<noteq> []" by code_simp
  have h2: "power_limit (thresholds (snd ?r)) < power_usage (context' (snd ?r))" by code_simp
  obtain d where d: "map_of (devices all_but_garden_on) ''garden_light'' = Some d"
    by (simp add: all_but_garden_on_def assistant0_def init_assistant_def init_devices_def)
  from power_limit_warning_is_advisory[OF c h1 h2] d
  have "py_in ''Warning'' (fst ?r)"
    and "\<exists>d'. map_of (devices (snd ?r)) ''garden_light'' = Some d' \<and> state d' = True"
    by auto
  then show ?thesis using h1 h2 by auto
qed

text \<open>
  Claim C2.  As stated (for every batch and every starting state, switching the batch on
  and then off restores \<^verbatim>\<open>power_usage\<close>) the claim fails: a device of the batch that is
  already on is left alone by the first call and switched off by the second, so its draw
  is subtracted without having been added.
\<close>

theorem power_round_trip_counterexample:
  "power_usage (context' bedroom_light_on) = 40
   \<and> power_usage (context' (snd (control_devices id
         (snd (control_devices id bedroom_light_on [''bedroom_light''] True))
         [''bedroom_light''] False))) = 0"
  by code_simp

text \<open>
  Claim C2, amended.  When every registered device named in the batch is off before the
  first call, \<^verbatim>\<open>_control_devices(names, True)\<close> followed by
  \<^verbatim>\<open>_control_devices(names, False)\<close> leaves \<^verbatim>\<open>power_usage\<close> at its value before the
  first call.  Unknown and repeated names are allowed.
\<close>

theorem power_round_trip_from_off:
  assumes "\<forall>n\<in>set device_names.
             case map_of (devices s) n of None \<Rightarrow> True | Some d \<Rightarrow> \<not> state d"
  shows "power_usage (context' (snd (control_devices clock
            (snd (control_devices clock s device_names True)) device_names False)))
         = power_usage (context' s)"
proof -
  have e: "{n \<in> set device_names. case map_of (devices s) n of None \<Rightarrow> False | Some d \<Rightarrow> state d} = {}"
    using assms by (auto split: option.splits)
  show ?thesis unfolding round_trip_power e by simp
qed

theorem power_round_trip_from_off_witness:
  "power_usage (context' (snd (control_devices id
      (snd (control_devices id assistant0 [''bedroom_light'', ''ghost''] True))
      [''bedroom_light'', ''ghost''] False)))
   = power_usage (context' assistant0)"
proof -
  have h: "\<forall>n\<in>set [''bedroom_light'', ''ghost''].
             case map_of (devices assistant0) n of None \<Rightarrow> True | Some d \<Rightarrow> \<not> state d"
    by code_simp
  show ?thesis using power_round_trip_from_off[OF h] .
qed

text \<open>
  Claim C10.  A text that contains \<^verbatim>\<open>all\<close>, \<^verbatim>\<open>everything\<close> or \<^verbatim>\<open>entire\<close> anywhere,
  also inside a longer word, makes \<^verbatim>\<open>_extract_devices_from_text\<close> return every light
  when \<^verbatim>\<open>light\<close> occurs in the text and every registered device otherwise; device
  names and aliases are not looked at.
\<close>

theorem all_keywords_are_substring_checks:
  assumes "w \<in> {''all'', ''everything'', ''entire''}"
    and "t = ps @ w @ ss"
    and "indexes_built s"
  shows "fst (extract_devices_from_text s t) =
           (if py_in ''light'' t
            then map fst (filter (\<lambda>(n, d). device_type d = LIGHT) (devices s))
            else map fst (devices s))"
proof -
  have "w \<in> set [''all'', ''everything'', ''entire'']" using assms(1) by simp
  moreover have "\<exists>ps ss. t = ps @ w @ ss" using assms(2) by blast
  ultimately have "any_in [''all'', ''everything'', ''entire''] t"
    unfolding any_in_iff by blast
  from extract_all[OF this] show ?thesis
    using assms(3) by (simp add: indexes_built_def dd_getitem_build_index)
qed

theorem all_keywords_are_substring_checks_witness:
  "fst (extract_devices_from_text assistant0 ''turn on the hallway lamp'') =
     [''living_room_light'', ''living_room_fan'', ''bedroom_light'', ''bedroom_ac'',
      ''bedroom_heater'', ''kitchen_light'', ''kitchen_exhaust'', ''front_door_lock'',
      ''security_alarm'', ''garden_light'', ''smart_outlet_1'']
   \<and> fst (extract_devices_from_text assistant0 ''disable hallway lights'') =
     [''living_room_light'', ''bedroom_light'', ''kitchen_light'', ''garden_light'']"
proof -
  have w: "''all'' \<in> {''all'', ''everything'', ''entire''}" by simp
  have t1: "''turn on the hallway lamp'' = ''turn on the h'' @ ''all'' @ ''way lamp''" by simp
  have t2: "''disable hallway lights'' = ''disable h'' @ ''all'' @ ''way lights''" by simp
  have ib: "indexes_built assistant0"
    by (simp add: indexes_built_def assistant0_def init_assistant_def)
  have l1: "\<not> py_in ''light'' ''turn on the hallway lamp''" by code_simp
  have l2: "py_in ''light'' ''disable hallway lights''" by code_simp
  have d1: "map fst (devices assistant0) = [''living_room_light'', ''living_room_fan'', ''bedroom_light'', ''bedroom_ac'',
      ''bedroom_heater'', ''kitchen_light'', ''kitchen_exhaust'', ''front_door_lock'',
      ''security_alarm'', ''garden_light'', ''smart_outlet_1'']" by code_simp
  have d2: "map fst (filter (\<lambda>(n, d). device_type d = LIGHT) (devices assistant0)) =
     [''living_room_light'', ''bedroom_light'', ''kitchen_light'', ''garden_light'']" by code_simp
  show ?thesis
    using all_keywords_are_substring_checks[OF w t1 ib] all_keywords_are_substring_checks[OF w t2 ib]
    unfolding d1 d2 using l1 l2 by simp
qed

section \<open>Power accounting: claims\<close>

text \<open>
  Claim C3.  As stated (every mutation appears atomic to concurrent readers and writers,
  and no update of \<^verbatim>\<open>power_usage\<close> is lost when calls of \<^verbatim>\<open>_control_devices\<close> interleave
  with the context-refresh loop) the claim fails: the program has no mutual exclusion.
  From the start state, the loop of \<^verbatim>\<open>_control_devices(['kitchen_light'], True)\<close> switches
  the light on; a reader then sees \<open>0\<close> W of usage with \<open>80\<close> W on; an iteration of the
  refresh loop sets the usage to \<open>80\<close>; the first thread resumes after its loop and adds its
  \<open>80\<close>: the usage ends at \<open>160\<close> W with \<open>80\<close> W on.  The loop followed at once by the lines
  after it is the call itself.
\<close>

theorem lost_update_counterexample:
  "control_devices id assistant0 [''kitchen_light''] True
     = control_commit True (fst after_loop) (fst (snd after_loop)) (snd (snd after_loop))
   \<and> power_usage (context' (fst after_loop)) = 0
   \<and> on_power (devices (fst after_loop)) = 80
   \<and> power_usage (context' after_refresh) = 80
   \<and> power_usage (context' after_commit) = 160
   \<and> on_power (devices after_commit) = 80"
  using control_devices_phases[of id assistant0 "[''kitchen_light'']" True] lost_update_eval
  by (simp add: after_loop_def split: prod.splits)

text \<open>
  Claim C3, amended.  When the calls of \<^verbatim>\<open>_control_devices\<close> and the iterations of the
  context-refresh loop run one after the other, each to completion, then from a state in
  which \<^verbatim>\<open>power_usage\<close> is the sum of \<^verbatim>\<open>power_consumption\<close> over the devices that are on,
  \<^verbatim>\<open>power_usage\<close> is that sum again after all of them; and after a sequence that ends with
  a refresh iteration it is that sum whatever the start state was.
\<close>

theorem sequential_power_accounting:
  assumes "distinct (map fst (devices s))"
  shows "(power_consistent s \<longrightarrow>
           power_usage (context' (run_sequentially clock ops s))
             = on_power (devices (run_sequentially clock ops s)))
       \<and> power_usage (context'
            (run_sequentially clock (ops @ [ContextRefresh hour weekday]) s))
           = on_power (devices
               (run_sequentially clock (ops @ [ContextRefresh hour weekday]) s))"
  using run_sequentially_consistent[OF assms, of clock ops]
    run_sequentially_refresh_last[OF assms, of clock ops hour weekday]
  by (simp add: power_consistent_def)

theorem sequential_power_accounting_witness:
  "on_power (devices (run_sequentially id
       [SetDevices [''kitchen_light''] True, ContextRefresh 9 ''Monday'',
        SetDevices [''kitchen_light'', ''bedroom_ac''] True] assistant0)) = 1280
   \<and> power_usage (context' (run_sequentially id
       [SetDevices [''kitchen_light''] True, ContextRefresh 9 ''Monday'',
        SetDevices [''kitchen_light'', ''bedroom_ac''] True] assistant0)) = 1280"
proof -
  let ?ops = "[SetDevices [''kitchen_light''] True, ContextRefresh 9 ''Monday'',
               SetDevices [''kitchen_light'', ''bedroom_ac''] True]"
  have e: "on_power (devices (run_sequentially id ?ops assistant0)) = 1280" by code_simp
  from sequential_power_accounting[OF distinct_assistant0, of id ?ops]
  have "power_usage (context' (run_sequentially id ?ops assistant0))
          = on_power (devices (run_sequentially id ?ops assistant0))"
    using power_consistent_assistant0 by blast
  then show ?thesis using e by simp
qed

section \<open>Fallback matcher: claims\<close>

text \<open>
  Claim C4.  On a configured state (built indexes, an entry for lights and for every room
  of the keyword table, as in the fixed configuration) \<^verbatim>\<open>_fast_pattern_match\<close> leaves
  the whole state unchanged, returns an intent and raises nothing, returns the same
  intent when called again, returns the same intent in every state with the same
  registry names, aliases, types, indexes and scene names (device states, context, cache
  and counters play no part), and returns the intent \<^verbatim>\<open>unknown\<close> with confidence
  \<open>0.1\<close> when no stage applies to the text as \<^verbatim>\<open>str.lower\<close> returns it.  The evaluation
  below is on an ASCII text.
\<close>

theorem fast_pattern_match_pure_total:
  assumes "configured s"
  shows "snd (fast_pattern_match str_lower s user_input is_fallback) = s
       \<and> (\<exists>i. fst (fast_pattern_match str_lower s user_input is_fallback) = Inr i)
       \<and> fst (fast_pattern_match str_lower (snd (fast_pattern_match str_lower s user_input is_fallback))
                user_input is_fallback)
           = fst (fast_pattern_match str_lower s user_input is_fallback)
       \<and> (\<forall>s'. same_static s s' \<longrightarrow>
             fst (fast_pattern_match str_lower s' user_input is_fallback)
               = fst (fast_pattern_match str_lower s user_input is_fallback))
       \<and> (nothing_matches s (str_lower user_input) \<longrightarrow>
             fst (fast_pattern_match str_lower s user_input is_fallback) = Inr unknown_intent)"
  using fast_pattern_match_snd[OF assms] fast_pattern_match_no_error[OF assms]
    fast_pattern_match_static[OF assms] fast_pattern_match_unknown[OF assms]
  by simp

theorem fast_pattern_match_pure_total_witness:
  "fast_pattern_match ascii_lower assistant0 ''Hello there'' True = (Inr unknown_intent, assistant0)
   \<and> map_of unknown_intent ''confidence'' = Some (PFloat 0.1)
   \<and> fst (fast_pattern_match ascii_lower everything_on ''Hello there'' True) = Inr unknown_intent"
proof -
  from fast_pattern_match_pure_total[OF configured_assistant0, of ascii_lower "''Hello there''" True]
  have a: "snd (fast_pattern_match ascii_lower assistant0 ''Hello there'' True) = assistant0"
    and b: "fst (fast_pattern_match ascii_lower assistant0 ''Hello there'' True) = Inr unknown_intent"
    and c: "fst (fast_pattern_match ascii_lower everything_on ''Hello there'' True)
              = fst (fast_pattern_match ascii_lower assistant0 ''Hello there'' True)"
    using nothing_matches_hello same_static_everything_on by blast+
  have "fast_pattern_match ascii_lower assistant0 ''Hello there'' True = (Inr unknown_intent, assistant0)"
    using a b by (metis prod.collapse)
  then show ?thesis using c b by (simp add: unknown_intent_def)
qed

text \<open>
  Claim C5.  As stated (confidence \<open>1.0\<close> or \<open>0.5\<close>, minus \<open>0.02\<close> for room-based matches,
  \<open>0.1\<close> for \<^verbatim>\<open>unknown\<close>) the claim fails: a status request carries \<open>0.9\<close> whatever the
  flag is, where the claimed rule gives \<open>1.0\<close>.
\<close>

theorem confidence_counterexample:
  "fst (fast_pattern_match ascii_lower assistant0 ''status'' False) = Inr status_intent
   \<and> map_of status_intent ''confidence'' = Some (PFloat 0.9)
   \<and> claimed_confidence False status_intent = 1"
  using status_eval by (simp add: status_intent_def claimed_confidence_def room_based_def)

text \<open>
  Claim C5, amended.  The confidence of the returned intent is \<open>1.0\<close> (not a fallback) or
  \<open>0.5\<close> (fallback) for scene and keyword matches, that value minus \<open>0.02\<close> for room-based
  matches, \<open>0.8\<close> for \<^verbatim>\<open>set_temperature\<close>, \<open>0.9\<close> for \<^verbatim>\<open>check_status\<close> and \<open>0.1\<close> for
  \<^verbatim>\<open>unknown\<close>.
\<close>

theorem confidence_by_kind:
  assumes "fst (fast_pattern_match str_lower s user_input is_fallback) = Inr i"
  shows "map_of i ''confidence'' = Some (PFloat (amended_confidence is_fallback i))"
  using assms by (rule fast_pattern_match_confidence)

theorem confidence_by_kind_witness:
  "fst (fast_pattern_match ascii_lower assistant0 ''the kitchen is dark'' True) = Inr kitchen_room_intent
   \<and> amended_confidence True kitchen_room_intent = 0.48
   \<and> map_of kitchen_room_intent ''confidence'' = Some (PFloat 0.48)"
  using confidence_by_kind[OF kitchen_eval] kitchen_eval
  by (simp add: kitchen_room_intent_def amended_confidence_def room_based_def)

section \<open>Scenes: claims\<close>

text \<open>
  Claim C6.  For a scene name that is not in the scene table \<^verbatim>\<open>_activate_scene\<close> returns
  the report \<^verbatim>\<open>Unknown scene. Available: ...\<close>, in which every registered scene name
  occurs, and the state is unchanged (no device state, timestamp or power usage
  changes).  For a registered name, on a configured state, it applies every pair of the
  scene through the device controller, \<^verbatim>\<open>all_lights\<close> standing for every device of light
  type, and the report ends with the description of the scene.
\<close>

theorem activate_scene_contract:
  "(map_of (scenes s) scene_name = None \<longrightarrow>
      activate_scene clock s scene_name
        = (''Unknown scene. Available: '' @ join_comma (map fst (scenes s)), s)
      \<and> (\<forall>n\<in>set (map fst (scenes s)). py_in n (fst (activate_scene clock s scene_name))))
   \<and> (\<forall>scene. configured s \<and> map_of (scenes s) scene_name = Some scene \<longrightarrow>
         activate_scene clock s scene_name
           = (''Scene '' @ [CHR 0x27] @ scene_name @ [CHR 0x27] @ '' activated: ''
                @ description scene,
              apply_pairs clock (scene_devices scene) s))"
proof (intro conjI impI allI)
  assume none: "map_of (scenes s) scene_name = None"
  then show e: "activate_scene clock s scene_name
        = (''Unknown scene. Available: '' @ join_comma (map fst (scenes s)), s)"
    by (simp add: activate_scene_def)
  show "\<forall>n\<in>set (map fst (scenes s)). py_in n (fst (activate_scene clock s scene_name))"
  proof
    fix n assume "n \<in> set (map fst (scenes s))"
    then obtain ps ss where "join_comma (map fst (scenes s)) = ps @ n @ ss"
      using join_comma_lists by blast
    then have "fst (activate_scene clock s scene_name)
                 = (''Unknown scene. Available: '' @ ps) @ n @ ss"
      using e by simp
    then show "py_in n (fst (activate_scene clock s scene_name))"
      unfolding py_in_iff by blast
  qed
next
  fix scene
  assume "configured s \<and> map_of (scenes s) scene_name = Some scene"
  then show "activate_scene clock s scene_name
           = (''Scene '' @ [CHR 0x27] @ scene_name @ [CHR 0x27] @ '' activated: ''
                @ description scene,
              apply_pairs clock (scene_devices scene) s)"
    by (simp add: activate_scene_def apply_scene_pairs)
qed

theorem activate_scene_contract_witness:
  "activate_scene id assistant0 ''party_mode''
     = (''Unknown scene. Available: movie_night, dinner, sleep, wake_up, away'', assistant0)
   \<and> fst (activate_scene id bedroom_light_on ''away'')
     = ''Scene '' @ [CHR 0x27] @ ''away'' @ [CHR 0x27] @ '' activated: Security mode when away''
   \<and> map (\<lambda>n. map_option state (map_of (devices (snd (activate_scene id bedroom_light_on ''away''))) n))
         [''bedroom_light'', ''security_alarm'', ''front_door_lock'', ''bedroom_ac'']
     = [Some False, Some True, Some True, Some False]
   \<and> power_usage (context' (snd (activate_scene id bedroom_light_on ''away''))) = 15"
proof -
  let ?away = "\<lparr>scene_devices = [(''all_lights'', False), (''security_alarm'', True),
                                   (''front_door_lock'', True)],
                 description = ''Security mode when away''\<rparr>"
  have none: "map_of (scenes assistant0) ''party_mode'' = None" by code_simp
  have names: "join_comma (map fst (scenes assistant0)) = ''movie_night, dinner, sleep, wake_up, away''"
    by code_simp
  have away: "configured bedroom_light_on \<and> map_of (scenes bedroom_light_on) ''away'' = Some ?away"
    using configured_bedroom_light_on by (simp add: scenes_bedroom_light_on init_scenes_def)
  have a: "activate_scene id assistant0 ''party_mode''
             = (''Unknown scene. Available: '' @ join_comma (map fst (scenes assistant0)), assistant0)"
    using activate_scene_contract[of assistant0 "''party_mode''" id] none by blast
  have b: "activate_scene id bedroom_light_on ''away''
             = (''Scene '' @ [CHR 0x27] @ ''away'' @ [CHR 0x27] @ '' activated: ''
                  @ description ?away,
                apply_pairs id (scene_devices ?away) bedroom_light_on)"
    using activate_scene_contract[of bedroom_light_on "''away''" id] away by blast
  have st: "map (\<lambda>n. map_option state (map_of (devices
               (apply_pairs id [(''all_lights'', False), (''security_alarm'', True),
                                (''front_door_lock'', True)] bedroom_light_on)) n))
         [''bedroom_light'', ''security_alarm'', ''front_door_lock'', ''bedroom_ac'']
     = [Some False, Some True, Some True, Some False]"
    by code_simp
  have pw: "power_usage (context'
               (apply_pairs id [(''all_lights'', False), (''security_alarm'', True),
                                (''front_door_lock'', True)] bedroom_light_on)) = 15"
    by code_simp
  show ?thesis using a b st pw names by simp
qed

section \<open>Response cache: claims\<close>



end
